theory Spec2Isabelle
  imports Main "HOL-Library.Word"
begin

section \<open>Outcomes of a kernel call\<close>

text \<open>
  A call either returns, or it does not return to its caller: \<open>panic\<close> halts the
  kernel with a message, a load or store through a pointer that addresses no object
  traps, and \<open>acquiresleep\<close> on a sleep-lock that is held puts the caller to sleep.
  Each operation is modelled as run to completion on one CPU, with no other CPU
  interleaved; the spin-locks, which only exclude other CPUs, are therefore not part
  of the state.
\<close>

datatype halt = Panic string | Trap | Asleep

section \<open>Physical page allocator (kalloc.c)\<close>

text \<open>
  \<open>struct run\<close> overlays the first bytes of a free page: \<open>run_next\<close> is its
  \<open>next\<close> field, read as one pointer, and \<open>rest\<close> are the remaining bytes of the
  page. Pointers are 64-bit addresses and 0 is the null pointer.
\<close>

record page =
  run_next :: "64 word"
  rest :: "8 word list"

text \<open>
  \<open>kmem[NCPU]\<close>: one free-list head per CPU. \<open>NCPU\<close> (param.h) is not among the
  sources; it is the length of \<open>freelist\<close>.
\<close>

record kmem =
  freelist :: "64 word list"
  mem :: "64 word \<Rightarrow> page"

definition NCPU :: "kmem \<Rightarrow> nat" where
  "NCPU s = length (freelist s)"

text \<open>The page size; kalloc.c: "Allocates whole 4096-byte pages".\<close>

definition PGSIZE :: "64 word" where
  "PGSIZE = 4096"

text \<open>\<open>memset(pa, c, PGSIZE)\<close>: every byte of the page at \<open>pa\<close> becomes \<open>c\<close>.\<close>

definition junk :: "8 word \<Rightarrow> page" where
  "junk c = \<lparr>run_next = word_rcat (replicate 8 c), rest = replicate (unat PGSIZE - 8) c\<rparr>"

definition memset :: "64 word \<Rightarrow> 8 word \<Rightarrow> kmem \<Rightarrow> kmem" where
  "memset pa c s = s\<lparr>mem := (mem s)(pa := junk c)\<rparr>"

text \<open>
  \<open>kfree(pa)\<close> on the CPU \<open>cid\<close> (the source's \<open>id = cpuid()\<close>). The first address after the kernel,
  \<open>end\<close> (kernel.ld), and \<open>PHYSTOP\<close> (memlayout.h) are not among the sources and
  are parameters \<open>kend\<close> and \<open>phystop\<close>.
\<close>

definition kfree :: "64 word \<Rightarrow> 64 word \<Rightarrow> nat \<Rightarrow> 64 word \<Rightarrow> kmem \<Rightarrow> halt + kmem" where
  "kfree kend phystop cid pa s =
     (if pa mod PGSIZE \<noteq> 0 \<or> pa < kend \<or> pa \<ge> phystop then Inl (Panic ''kfree'')
      else
        let s1 = memset pa 1 s;
            s2 = s1\<lparr>mem := (mem s1)(pa := (mem s1 pa)\<lparr>run_next := freelist s1 ! cid\<rparr>)\<rparr>
        in Inr (s2\<lparr>freelist := (freelist s2)[cid := pa]\<rparr>))"

text \<open>Taking the head of shard \<open>j\<close>: \<open>kmem[j].freelist = r->next\<close>.\<close>

definition pop :: "nat \<Rightarrow> kmem \<Rightarrow> kmem" where
  "pop j s = s\<lparr>freelist := (freelist s)[j := run_next (mem s (freelist s ! j))]\<rparr>"

text \<open>
  The stealing loop \<open>for (i = 1; i < NCPU; i++)\<close> of \<open>kalloc\<close>, from the index
  \<open>i\<close> on. It returns the value of \<open>r\<close> at its end.
\<close>

function steal :: "nat \<Rightarrow> nat \<Rightarrow> kmem \<Rightarrow> 64 word \<times> kmem" where
  "steal cid i s =
     (if i < NCPU s then
        (let id_n = (cid + i) mod NCPU s;
             r = freelist s ! id_n
         in if r \<noteq> 0 then (r, pop id_n s) else steal cid (i + 1) s)
      else (0, s))"
  by pat_completeness auto
termination
  by (relation "measure (\<lambda>(cid, i, s). NCPU s - i)") auto

declare steal.simps [simp del]

definition kalloc :: "nat \<Rightarrow> kmem \<Rightarrow> 64 word \<times> kmem" where
  "kalloc cid s =
     (let r = freelist s ! cid;
          s1 = (if r \<noteq> 0 then pop cid s else s);
          (r2, s2) = (if r = 0 then steal cid 1 s1 else (r, s1));
          s3 = (if r2 \<noteq> 0 then memset r2 5 s2 else s2)
      in (r2, s3))"

text \<open>
  The order of the probes as the specification words it: the shards
  \<open>(cid + i) mod NCPU\<close> for \<open>i = 1 .. NCPU - 1\<close>.
\<close>

definition probe_order :: "nat \<Rightarrow> nat \<Rightarrow> nat list" where
  "probe_order cid n = map (\<lambda>i. (cid + i) mod n) [1..<n]"

text \<open>
  The free list of a shard as the sequence of frames that the \<open>next\<close> pointers
  chain from its head to the null pointer.
\<close>

primrec run_list :: "(64 word \<Rightarrow> page) \<Rightarrow> 64 word \<Rightarrow> 64 word list \<Rightarrow> bool" where
  "run_list m p [] = (p = 0)"
| "run_list m p (a # as) = (p = a \<and> a \<noteq> 0 \<and> run_list m (run_next (m a)) as)"

definition first_nonempty :: "kmem \<Rightarrow> nat list \<Rightarrow> nat option" where
  "first_nonempty s js = find (\<lambda>j. freelist s ! j \<noteq> 0) js"

section \<open>Buffer cache (bio.c)\<close>

subsection \<open>Buffers, pointers and the state\<close>

text \<open>
  A \<open>struct buf *\<close> is the null pointer, the address of the list head of a bucket
  (\<open>&bucket[j].head\<close>) or the address of a buffer of the pool (\<open>&bcache.buf[i]\<close>).
\<close>

datatype ref = Null | Head nat | Slot nat

text \<open>
  Modelled from the spec: \<open>struct buf\<close> (buf.h) is not among the sources. The
  specification gives a buffer the fields device, block number, valid, refcount,
  last-used tick and data, a sleep-lock and the two list pointers; bio.c names them
  \<open>dev\<close>, \<open>blockno\<close>, \<open>valid\<close>, \<open>refcnt\<close>, \<open>lu_time\<close>, \<open>data\<close>,
  \<open>lock\<close>, \<open>prev\<close> and \<open>next\<close>. \<open>dev\<close> and \<open>blockno\<close> are the \<open>uint\<close>
  arguments of \<open>bget\<close>; \<open>refcnt\<close> is a 32-bit counter that wraps; the tick stamp
  \<open>lu_time\<close> is, as the specification says of the original, a signed quantity, and
  the tick counter does not overflow, so both are unbounded integers here. The
  sleep-lock is the process that holds it, if any.
\<close>

record buf =
  valid :: "32 word"
  dev :: "32 word"
  blockno :: "32 word"
  lock :: "nat option"
  refcnt :: "32 word"
  b_prev :: ref
  b_next :: ref
  data :: "8 word list"
  lu_time :: int

text \<open>
  The globals: \<open>bcache.buf[NBUF]\<close>, \<open>bucket[NBUCKET].head\<close> and \<open>ticks\<close>; with
  them the contents of the disk and the sequence of the calls of the disk driver, each
  with its write flag, device and block number. \<open>NBUF\<close> (param.h) is not among the
  sources; it is the length of \<open>bcache_buf\<close>.
\<close>

record bcache =
  bcache_buf :: "buf list"
  bucket_head :: "buf list"
  ticks :: nat
  disk :: "32 word \<times> 32 word \<Rightarrow> 8 word list"
  io :: "(bool \<times> 32 word \<times> 32 word) list"

definition NBUCKET :: nat where
  "NBUCKET = 13"

definition NBUF :: "bcache \<Rightarrow> nat" where
  "NBUF s = length (bcache_buf s)"

text \<open>Sequencing of steps that may not return.\<close>

definition seq :: "halt + 'a \<Rightarrow> ('a \<Rightarrow> halt + 'b) \<Rightarrow> halt + 'b" where
  "seq m f = (case m of Inl e \<Rightarrow> Inl e | Inr x \<Rightarrow> f x)"

text \<open>
  Reading and writing through a pointer. A pointer that is null, or that addresses
  nothing in the two arrays, has no object: a load or a store through it traps.
\<close>

definition deref :: "bcache \<Rightarrow> ref \<Rightarrow> buf option" where
  "deref s r =
     (case r of
        Null \<Rightarrow> None
      | Head j \<Rightarrow> if j < length (bucket_head s) then Some (bucket_head s ! j) else None
      | Slot i \<Rightarrow> if i < length (bcache_buf s) then Some (bcache_buf s ! i) else None)"

definition store :: "ref \<Rightarrow> (buf \<Rightarrow> buf) \<Rightarrow> bcache \<Rightarrow> bcache" where
  "store r f s =
     (case r of
        Null \<Rightarrow> s
      | Head j \<Rightarrow> s\<lparr>bucket_head := (bucket_head s)[j := f (bucket_head s ! j)]\<rparr>
      | Slot i \<Rightarrow> s\<lparr>bcache_buf := (bcache_buf s)[i := f (bcache_buf s ! i)]\<rparr>)"

definition load :: "bcache \<Rightarrow> ref \<Rightarrow> halt + buf" where
  "load s r = (case deref s r of None \<Rightarrow> Inl Trap | Some x \<Rightarrow> Inr x)"

definition assign :: "ref \<Rightarrow> (buf \<Rightarrow> buf) \<Rightarrow> bcache \<Rightarrow> halt + bcache" where
  "assign r f s = (case deref s r of None \<Rightarrow> Inl Trap | Some x \<Rightarrow> Inr (store r f s))"

subsection \<open>The collaborators\<close>

text \<open>
  Modelled from the spec: the sleep-lock (sleeplock.c) is not among the sources. It is
  exclusive; \<open>acquiresleep\<close> by process \<open>p\<close> takes a free lock and otherwise puts the
  caller to sleep, \<open>holdingsleep\<close> tells whether the caller holds it, and
  \<open>releasesleep\<close> frees it.
\<close>

definition acquiresleep :: "nat \<Rightarrow> ref \<Rightarrow> bcache \<Rightarrow> halt + bcache" where
  "acquiresleep p b s =
     seq (load s b) (\<lambda>x.
       case lock x of
         Some q \<Rightarrow> Inl Asleep
       | None \<Rightarrow> Inr (store b (\<lambda>y. y\<lparr>lock := Some p\<rparr>) s))"

definition holdingsleep :: "nat \<Rightarrow> buf \<Rightarrow> bool" where
  "holdingsleep p x = (lock x = Some p)"

definition releasesleep :: "ref \<Rightarrow> bcache \<Rightarrow> bcache" where
  "releasesleep b s = store b (\<lambda>x. x\<lparr>lock := None\<rparr>) s"

text \<open>
  Modelled from the spec: the disk driver (\<open>virtio_disk_rw(b, write)\<close>) is not among the
  sources. It is synchronous block I/O: a read fills the buffer's data from the block
  \<open>(dev, blockno)\<close> of the disk, a write stores the data there. Every call is
  appended to \<open>io\<close>.
\<close>

definition virtio_disk_rw :: "ref \<Rightarrow> bool \<Rightarrow> bcache \<Rightarrow> halt + bcache" where
  "virtio_disk_rw b w s =
     seq (load s b) (\<lambda>x.
       let s1 = s\<lparr>io := io s @ [(w, dev x, blockno x)]\<rparr>
       in if w then Inr (s1\<lparr>disk := (disk s1)((dev x, blockno x) := data x)\<rparr>)
          else Inr (store b (\<lambda>y. y\<lparr>data := disk s1 (dev x, blockno x)\<rparr>) s1))"

subsection \<open>binit\<close>

text \<open>
  The first loop of \<open>binit\<close> makes every bucket an empty ring; its body for the
  index \<open>i\<close>:
\<close>

definition init_bucket :: "nat \<Rightarrow> bcache \<Rightarrow> bcache" where
  "init_bucket i s = store (Head i) (\<lambda>x. x\<lparr>b_prev := Head i, b_next := Head i\<rparr>) s"

text \<open>
  The body of the second loop, for the buffer \<open>b = &bcache.buf[i]\<close>, statement by
  statement: \<open>b->next = bucket[0].head.next\<close>, \<open>b->prev = &bucket[0].head\<close>,
  \<open>initsleeplock\<close>, \<open>bucket[0].head.next->prev = b\<close>, \<open>bucket[0].head.next = b\<close>,
  \<open>b->lu_time = -1\<close>.
\<close>

definition init_buf :: "nat \<Rightarrow> bcache \<Rightarrow> halt + bcache" where
  "init_buf i s =
     (let s1 = store (Slot i) (\<lambda>x. x\<lparr>b_next := b_next (bucket_head s ! 0)\<rparr>) s;
          s2 = store (Slot i) (\<lambda>x. x\<lparr>b_prev := Head 0\<rparr>) s1;
          s3 = store (Slot i) (\<lambda>x. x\<lparr>lock := None\<rparr>) s2
      in seq (assign (b_next (bucket_head s3 ! 0)) (\<lambda>x. x\<lparr>b_prev := Slot i\<rparr>) s3) (\<lambda>s4.
           let s5 = store (Head 0) (\<lambda>x. x\<lparr>b_next := Slot i\<rparr>) s4
           in Inr (store (Slot i) (\<lambda>x. x\<lparr>lu_time := - 1\<rparr>) s5)))"

primrec for_each :: "(nat \<Rightarrow> bcache \<Rightarrow> halt + bcache) \<Rightarrow> nat list \<Rightarrow> bcache \<Rightarrow> halt + bcache" where
  "for_each f [] s = Inr s"
| "for_each f (i # is) s = seq (f i s) (for_each f is)"

definition binit :: "bcache \<Rightarrow> halt + bcache" where
  "binit s = for_each init_buf [0..<NBUF s] (fold init_bucket [0..<NBUCKET] s)"

text \<open>
  The globals as they are before \<open>binit\<close>: static storage is zero, every pointer is
  null. \<open>nbuf\<close> is the size of the pool and \<open>dsk\<close> what the disk holds.
\<close>

definition zero_buf :: buf where
  "zero_buf = \<lparr>valid = 0, dev = 0, blockno = 0, lock = None, refcnt = 0,
               b_prev = Null, b_next = Null, data = [], lu_time = 0\<rparr>"

definition boot :: "nat \<Rightarrow> (32 word \<times> 32 word \<Rightarrow> 8 word list) \<Rightarrow> bcache" where
  "boot nbuf dsk = \<lparr>bcache_buf = replicate nbuf zero_buf,
                    bucket_head = replicate NBUCKET zero_buf,
                    ticks = 0, disk = dsk, io = []\<rparr>"

subsection \<open>bget\<close>

text \<open>
  The scan of a bucket, \<open>for(b = bucket[hash_n].head.next; b != &bucket[hash_n].head;
  b = b->next)\<close>, from the pointer \<open>b\<close> on. It ends with the buffer that matches, or
  with none when it is back at the head. It follows the \<open>next\<close> pointers wherever
  they lead and need not end; then its value is \<open>None\<close>.
\<close>

partial_function (option) lookup ::
  "bcache \<Rightarrow> nat \<Rightarrow> 32 word \<Rightarrow> 32 word \<Rightarrow> ref \<Rightarrow> (halt + ref option) option" where
  "lookup s hash_n d n b =
     (if b = Head hash_n then Some (Inr None)
      else case deref s b of
             None \<Rightarrow> Some (Inl Trap)
           | Some x \<Rightarrow>
               if dev x = d \<and> blockno x = n then Some (Inr (Some b))
               else lookup s hash_n d n (b_next x))"

text \<open>A hit: \<open>b->refcnt++\<close>, then \<open>acquiresleep(&b->lock)\<close> and \<open>return b\<close>.\<close>

definition hit :: "nat \<Rightarrow> ref \<Rightarrow> bcache \<Rightarrow> halt + ref \<times> bcache" where
  "hit p b s =
     seq (assign b (\<lambda>x. x\<lparr>refcnt := refcnt x + 1\<rparr>) s) (\<lambda>s1.
     seq (acquiresleep p b s1) (\<lambda>s2. Inr (b, s2)))"

text \<open>
  The scan of the whole pool, \<open>for(b = bcache.buf; b < bcache.buf + NBUF; b++)\<close>, with
  the body \<open>pick\<close>: \<open>lru\<close> is the index of the candidate so far.
\<close>

definition pick :: "bcache \<Rightarrow> nat option \<Rightarrow> nat \<Rightarrow> nat option" where
  "pick s lru i =
     (if refcnt (bcache_buf s ! i) = 0 \<and>
         (case lru of
            None \<Rightarrow> True
          | Some l \<Rightarrow> lu_time (bcache_buf s ! i) < lu_time (bcache_buf s ! l))
      then Some i else lru)"

definition scan :: "bcache \<Rightarrow> nat option" where
  "scan s = foldl (pick s) None [0..<NBUF s]"

text \<open>
  What \<open>bget\<close> does with the victim \<open>lru = &bcache.buf[l]\<close> once its \<open>refcnt\<close> is
  seen to be 0 again, statement by statement: it is taken out of its list
  (\<open>lru->next->prev = lru->prev\<close>, \<open>lru->prev->next = lru->next\<close>), bound to the
  block, put at the head of the list of \<open>hash_n\<close>, and returned with its sleep-lock.
  Every statement reads the pointers as the statements before it left them.
\<close>

definition rebind :: "nat \<Rightarrow> nat \<Rightarrow> 32 word \<Rightarrow> 32 word \<Rightarrow> nat \<Rightarrow> bcache \<Rightarrow> halt + ref \<times> bcache" where
  "rebind p hash_n d n l s =
     seq (assign (b_next (bcache_buf s ! l)) (\<lambda>x. x\<lparr>b_prev := b_prev (bcache_buf s ! l)\<rparr>) s) (\<lambda>s1.
     seq (assign (b_prev (bcache_buf s1 ! l)) (\<lambda>x. x\<lparr>b_next := b_next (bcache_buf s1 ! l)\<rparr>) s1) (\<lambda>s2.
       let s3 = store (Slot l) (\<lambda>x. x\<lparr>dev := d\<rparr>) s2;
           s4 = store (Slot l) (\<lambda>x. x\<lparr>blockno := n\<rparr>) s3;
           s5 = store (Slot l) (\<lambda>x. x\<lparr>valid := 0\<rparr>) s4;
           s6 = store (Slot l) (\<lambda>x. x\<lparr>refcnt := 1\<rparr>) s5;
           s7 = store (Slot l) (\<lambda>x. x\<lparr>b_prev := Head hash_n\<rparr>) s6;
           s8 = store (Slot l) (\<lambda>x. x\<lparr>b_next := b_next (bucket_head s7 ! hash_n)\<rparr>) s7
       in
     seq (assign (b_next (bucket_head s8 ! hash_n)) (\<lambda>x. x\<lparr>b_prev := Slot l\<rparr>) s8) (\<lambda>s9.
       let s10 = store (Head hash_n) (\<lambda>x. x\<lparr>b_next := Slot l\<rparr>) s9
       in
     seq (acquiresleep p (Slot l) s10) (\<lambda>s11. Inr (Slot l, s11)))))"

text \<open>
  The loop \<open>while(lru == 0)\<close>. Each round scans the pool; with no candidate, or with
  a candidate whose \<open>refcnt\<close> is no longer 0, it goes round again. No round leaves
  the loop but by returning, so the \<open>panic("bget: no buffers")\<close> that follows the
  loop in the source is never reached and has no branch here.
\<close>

partial_function (option) recycle ::
  "nat \<Rightarrow> nat \<Rightarrow> 32 word \<Rightarrow> 32 word \<Rightarrow> bcache \<Rightarrow> (halt + ref \<times> bcache) option" where
  "recycle p hash_n d n s =
     (case scan s of
        None \<Rightarrow> recycle p hash_n d n s
      | Some l \<Rightarrow>
          if refcnt (bcache_buf s ! l) \<noteq> 0 then recycle p hash_n d n s
          else Some (rebind p hash_n d n l s))"

declare lookup.simps [code] recycle.simps [code]

text \<open>
  \<open>bget(dev, blockno)\<close> called by process \<open>p\<close>: the scan of the bucket, the scan
  again under the global lock, then the recycling. \<open>None\<close> is a call that never
  returns.
\<close>

definition bget :: "nat \<Rightarrow> 32 word \<Rightarrow> 32 word \<Rightarrow> bcache \<Rightarrow> (halt + ref \<times> bcache) option" where
  "bget p d n s =
     (let hash_n = unat n mod NBUCKET in
      case lookup s hash_n d n (b_next (bucket_head s ! hash_n)) of
        None \<Rightarrow> None
      | Some (Inl e) \<Rightarrow> Some (Inl e)
      | Some (Inr (Some b)) \<Rightarrow> Some (hit p b s)
      | Some (Inr None) \<Rightarrow>
          (case lookup s hash_n d n (b_next (bucket_head s ! hash_n)) of
             None \<Rightarrow> None
           | Some (Inl e) \<Rightarrow> Some (Inl e)
           | Some (Inr (Some b)) \<Rightarrow> Some (hit p b s)
           | Some (Inr None) \<Rightarrow> recycle p hash_n d n s))"

subsection \<open>bread, bwrite, brelse, bpin, bunpin\<close>

definition bread :: "nat \<Rightarrow> 32 word \<Rightarrow> 32 word \<Rightarrow> bcache \<Rightarrow> (halt + ref \<times> bcache) option" where
  "bread p d n s =
     (case bget p d n s of
        None \<Rightarrow> None
      | Some (Inl e) \<Rightarrow> Some (Inl e)
      | Some (Inr (b, s1)) \<Rightarrow>
          Some (seq (load s1 b) (\<lambda>x.
            if valid x = 0 then
              seq (virtio_disk_rw b False s1) (\<lambda>s2.
                Inr (b, store b (\<lambda>y. y\<lparr>valid := 1\<rparr>) s2))
            else Inr (b, s1))))"

definition bwrite :: "nat \<Rightarrow> ref \<Rightarrow> bcache \<Rightarrow> halt + bcache" where
  "bwrite p b s =
     seq (load s b) (\<lambda>x.
       if \<not> holdingsleep p x then Inl (Panic ''bwrite'')
       else virtio_disk_rw b True s)"

definition brelse :: "nat \<Rightarrow> ref \<Rightarrow> bcache \<Rightarrow> halt + bcache" where
  "brelse p b s =
     seq (load s b) (\<lambda>x.
       if \<not> holdingsleep p x then Inl (Panic ''brelse'')
       else
         let s1 = releasesleep b s;
             s2 = store b (\<lambda>x. x\<lparr>refcnt := refcnt x - 1\<rparr>) s1
         in Inr (store b (\<lambda>x. x\<lparr>lu_time := int (ticks s2)\<rparr>) s2))"

definition bpin :: "ref \<Rightarrow> bcache \<Rightarrow> halt + bcache" where
  "bpin b s = assign b (\<lambda>x. x\<lparr>refcnt := refcnt x + 1\<rparr>) s"

definition bunpin :: "ref \<Rightarrow> bcache \<Rightarrow> halt + bcache" where
  "bunpin b s = assign b (\<lambda>x. x\<lparr>refcnt := refcnt x - 1\<rparr>) s"

section \<open>Notions for the proofs about the buffer cache\<close>

text \<open>
  The object that a pointer addresses, and whether it addresses one.
\<close>

definition obj :: "bcache \<Rightarrow> ref \<Rightarrow> buf" where
  "obj s r = (case r of Null \<Rightarrow> zero_buf | Head j \<Rightarrow> bucket_head s ! j | Slot i \<Rightarrow> bcache_buf s ! i)"

definition ok :: "bcache \<Rightarrow> ref \<Rightarrow> bool" where
  "ok s r = (case r of Null \<Rightarrow> False | Head j \<Rightarrow> j < length (bucket_head s) | Slot i \<Rightarrow> i < NBUF s)"

text \<open>
  The two pointer fields of the object at a pointer.
\<close>

definition nxt :: "bcache \<Rightarrow> ref \<Rightarrow> ref" where
  "nxt s r = b_next (obj s r)"

definition prv :: "bcache \<Rightarrow> ref \<Rightarrow> ref" where
  "prv s r = b_prev (obj s r)"

text \<open>
  A stretch of a doubly-linked list: from the pointer \<open>c\<close>, whose predecessor is \<open>p\<close>, the \<open>next\<close> pointers \<open>N\<close> lead through the buffers \<open>xs\<close> to \<open>e\<close>, and the \<open>prev\<close> pointers \<open>P\<close> lead back.
\<close>

primrec dseg :: "(ref \<Rightarrow> ref) \<Rightarrow> (ref \<Rightarrow> ref) \<Rightarrow> ref \<Rightarrow> ref \<Rightarrow> nat list \<Rightarrow> ref \<Rightarrow> bool" where
  "dseg N P p c [] e = (c = e \<and> P e = p)"
| "dseg N P p c (i # is) e = (c = Slot i \<and> P (Slot i) = p \<and> dseg N P (Slot i) (N (Slot i)) is e)"

text \<open>
  The list of bucket \<open>h\<close> holds the buffers \<open>xs\<close>, in this order from the head and back to it.
\<close>

definition ring :: "(ref \<Rightarrow> ref) \<Rightarrow> (ref \<Rightarrow> ref) \<Rightarrow> nat \<Rightarrow> nat list \<Rightarrow> bool" where
  "ring N P h xs = dseg N P (Head h) (N (Head h)) xs (Head h)"

text \<open>
  The node in front of a stretch, and the node behind it.
\<close>

definition first :: "nat list \<Rightarrow> ref \<Rightarrow> ref" where
  "first zs e = (case zs of [] \<Rightarrow> e | z # _ \<Rightarrow> Slot z)"

definition lastr :: "ref \<Rightarrow> nat list \<Rightarrow> ref" where
  "lastr p ys = (if ys = [] then p else Slot (last ys))"

text \<open>
  Every bucket is such a ring, over buffers of the pool, and no buffer is in two of them.
\<close>

definition rings :: "bcache \<Rightarrow> nat list list \<Rightarrow> bool" where
  "rings s bs \<longleftrightarrow>
     length bs = NBUCKET \<and> length (bucket_head s) = NBUCKET \<and>
     (\<forall>h < NBUCKET. ring (nxt s) (prv s) h (bs ! h) \<and> distinct (bs ! h) \<and>
         (\<forall>i \<in> set (bs ! h). i < NBUF s)) \<and>
     (\<forall>h1 < NBUCKET. \<forall>h2 < NBUCKET. h1 \<noteq> h2 \<longrightarrow> set (bs ! h1) \<inter> set (bs ! h2) = {})"

text \<open>
  The fields of a buffer other than the two list pointers.
\<close>

definition payload :: "buf \<Rightarrow> 32 word \<times> 32 word \<times> 32 word \<times> nat option \<times> 32 word \<times> 8 word list \<times> int" where
  "payload x = (valid x, dev x, blockno x, lock x, refcnt x, data x, lu_time x)"

text \<open>
  The two stores that take a buffer out of its list.
\<close>

definition detach :: "nat \<Rightarrow> bcache \<Rightarrow> bcache" where
  "detach l s =
     store (prv s (Slot l)) (\<lambda>x. x\<lparr>b_next := nxt s (Slot l)\<rparr>)
       (store (nxt s (Slot l)) (\<lambda>x. x\<lparr>b_prev := prv s (Slot l)\<rparr>) s)"

text \<open>
  The stores that put a buffer at the head of the list of bucket \<open>h\<close>, after \<open>g\<close> has set its other fields.
\<close>

definition push :: "nat \<Rightarrow> nat \<Rightarrow> (buf \<Rightarrow> buf) \<Rightarrow> bcache \<Rightarrow> bcache" where
  "push h l g s =
     store (Head h) (\<lambda>x. x\<lparr>b_next := Slot l\<rparr>)
       (store (nxt s (Head h)) (\<lambda>x. x\<lparr>b_prev := Slot l\<rparr>)
          (store (Slot l) (\<lambda>x. (g x)\<lparr>b_prev := Head h, b_next := nxt s (Head h)\<rparr>) s))"

definition attach :: "nat \<Rightarrow> 32 word \<Rightarrow> 32 word \<Rightarrow> nat \<Rightarrow> bcache \<Rightarrow> bcache" where
  "attach h d n l s = push h l (\<lambda>x. x\<lparr>dev := d, blockno := n, valid := 0, refcnt := 1\<rparr>) s"

text \<open>
  Both together: the buffer \<open>l\<close> leaves its list, is bound to the block and enters bucket \<open>h\<close>.
\<close>

definition relink :: "nat \<Rightarrow> 32 word \<Rightarrow> 32 word \<Rightarrow> nat \<Rightarrow> bcache \<Rightarrow> bcache" where
  "relink h d n l s = attach h d n l (detach l s)"

text \<open>
  The test of the bucket scan.
\<close>

definition matches :: "bcache \<Rightarrow> 32 word \<Rightarrow> 32 word \<Rightarrow> nat \<Rightarrow> bool" where
  "matches s d n i \<longleftrightarrow> dev (bcache_buf s ! i) = d \<and> blockno (bcache_buf s ! i) = n"

text \<open>
  What the scan of the pool has found after the first \<open>k\<close> buffers.
\<close>

definition best :: "bcache \<Rightarrow> nat \<Rightarrow> nat option \<Rightarrow> bool" where
  "best s k acc \<longleftrightarrow>
     (case acc of
        None \<Rightarrow> \<forall>i < k. refcnt (bcache_buf s ! i) \<noteq> 0
      | Some l \<Rightarrow> l < k \<and> refcnt (bcache_buf s ! l) = 0 \<and>
          (\<forall>j < k. refcnt (bcache_buf s ! j) = 0 \<longrightarrow>
             lu_time (bcache_buf s ! l) \<le> lu_time (bcache_buf s ! j) \<and>
             (lu_time (bcache_buf s ! j) = lu_time (bcache_buf s ! l) \<longrightarrow> l \<le> j)))"

text \<open>
  The invariant of the cache: with \<open>bs\<close> the contents of the buckets, every bucket is a ring, every buffer of the pool is in a bucket, and it is the bucket of its block number.
\<close>

definition cache_inv :: "bcache \<Rightarrow> nat list list \<Rightarrow> bool" where
  "cache_inv s bs \<longleftrightarrow>
     rings s bs \<and>
     (\<forall>i < NBUF s. \<exists>h < NBUCKET. i \<in> set (bs ! h)) \<and>
     (\<forall>h < NBUCKET. \<forall>i \<in> set (bs ! h). unat (blockno (bcache_buf s ! i)) mod NBUCKET = h)"

text \<open>
  A step that leaves the lists and the identity of every buffer as they are.
\<close>

definition frame :: "bcache \<Rightarrow> bcache \<Rightarrow> bool" where
  "frame s s' \<longleftrightarrow>
     NBUF s' = NBUF s \<and> length (bucket_head s') = length (bucket_head s) \<and>
     nxt s' = nxt s \<and> prv s' = prv s \<and>
     (\<forall>i. dev (bcache_buf s' ! i) = dev (bcache_buf s ! i) \<and>
          blockno (bcache_buf s' ! i) = blockno (bcache_buf s ! i))"

text \<open>
  The contents of the buckets after buffer \<open>l\<close> has moved to bucket \<open>h\<close>.
\<close>

definition moved :: "nat list list \<Rightarrow> nat \<Rightarrow> nat \<Rightarrow> nat list list" where
  "moved bs l h = (map (remove1 l) bs)[h := l # remove1 l (bs ! h)]"

text \<open>
  The contents of the buckets while \<open>binit\<close> runs: the first \<open>k\<close> buffers, the last in front, in bucket 0.
\<close>

definition initial :: "nat \<Rightarrow> nat list list" where
  "initial k = (replicate NBUCKET [])[0 := rev [0..<k]]"

text \<open>
  The state of \<open>binit\<close> after \<open>k\<close> rounds of its second loop, from the state \<open>s0\<close>.
\<close>

definition fresh :: "bcache \<Rightarrow> nat \<Rightarrow> bcache \<Rightarrow> bool" where
  "fresh s0 k s \<longleftrightarrow>
     rings s (initial k) \<and> NBUF s = NBUF s0 \<and>
     ticks s = ticks s0 \<and> disk s = disk s0 \<and> io s = io s0 \<and>
     (\<forall>i < NBUF s0.
        valid (bcache_buf s ! i) = valid (bcache_buf s0 ! i) \<and>
        dev (bcache_buf s ! i) = dev (bcache_buf s0 ! i) \<and>
        blockno (bcache_buf s ! i) = blockno (bcache_buf s0 ! i) \<and>
        refcnt (bcache_buf s ! i) = refcnt (bcache_buf s0 ! i) \<and>
        data (bcache_buf s ! i) = data (bcache_buf s0 ! i)) \<and>
     (\<forall>i < k. lu_time (bcache_buf s ! i) = - 1 \<and> lock (bcache_buf s ! i) = None)"

text \<open>
  The state after a hit on buffer \<open>i\<close>, and after buffer \<open>l\<close> has been recycled.
\<close>

definition taken :: "nat \<Rightarrow> nat \<Rightarrow> bcache \<Rightarrow> bcache" where
  "taken p i s =
     store (Slot i) (\<lambda>x. x\<lparr>lock := Some p\<rparr>) (store (Slot i) (\<lambda>x. x\<lparr>refcnt := refcnt x + 1\<rparr>) s)"

definition recycled :: "nat \<Rightarrow> 32 word \<Rightarrow> 32 word \<Rightarrow> nat \<Rightarrow> bcache \<Rightarrow> bcache" where
  "recycled p d n l s =
     store (Slot l) (\<lambda>x. x\<lparr>lock := Some p\<rparr>) (relink (unat n mod NBUCKET) d n l s)"

text \<open>
  The states of the cache after \<open>binit\<close> from the zeroed globals and any number of completed calls of the public operations, by any process and with any arguments, with the tick counter advancing in between.
\<close>

inductive reachable :: "bcache \<Rightarrow> bool" where
  boot: "binit (boot nbuf dsk) = Inr s \<Longrightarrow> reachable s"
| tick: "reachable s \<Longrightarrow> ticks s \<le> t \<Longrightarrow> reachable (s\<lparr>ticks := t\<rparr>)"
| bread: "reachable s \<Longrightarrow> bread p d n s = Some (Inr (b, s')) \<Longrightarrow> reachable s'"
| bwrite: "reachable s \<Longrightarrow> bwrite p b s = Inr s' \<Longrightarrow> reachable s'"
| brelse: "reachable s \<Longrightarrow> brelse p b s = Inr s' \<Longrightarrow> reachable s'"
| bpin: "reachable s \<Longrightarrow> bpin b s = Inr s' \<Longrightarrow> reachable s'"
| bunpin: "reachable s \<Longrightarrow> bunpin b s = Inr s' \<Longrightarrow> reachable s'"

text \<open>
  A buffer holds a block when it is referenced or its data is valid. The buffers that \<open>binit\<close> leaves all carry device 0 and block 0 and hold no block.
\<close>

definition cached :: "bcache \<Rightarrow> nat \<Rightarrow> bool" where
  "cached s i \<longleftrightarrow> refcnt (bcache_buf s ! i) \<noteq> 0 \<or> valid (bcache_buf s ! i) \<noteq> 0"

text \<open>
  Buffer \<open>i\<close> is the first in the list \<open>xs\<close> that the bucket scan finds for its own device and block number.
\<close>

definition first_match :: "bcache \<Rightarrow> nat list \<Rightarrow> nat \<Rightarrow> bool" where
  "first_match s xs i \<longleftrightarrow>
     find (matches s (dev (bcache_buf s ! i)) (blockno (bcache_buf s ! i))) xs = Some i"

text \<open>
  Every buffer that holds a block is the one the scan of its bucket finds for that block.
\<close>

definition uniq :: "bcache \<Rightarrow> nat list list \<Rightarrow> bool" where
  "uniq s bs \<longleftrightarrow> (\<forall>h < NBUCKET. \<forall>i \<in> set (bs ! h). cached s i \<longrightarrow> first_match s (bs ! h) i)"

text \<open>
  The buffers met from the pointer \<open>c\<close> along the \<open>next\<close> pointers until the head of bucket \<open>h\<close>, within \<open>k\<close> steps; \<open>None\<close> when the head is not met within them or a pointer leaves the pool.
\<close>

fun chain :: "bcache \<Rightarrow> nat \<Rightarrow> nat \<Rightarrow> ref \<Rightarrow> nat list option" where
  "chain s 0 h c = (if c = Head h then Some [] else None)"
| "chain s (Suc k) h c =
     (if c = Head h then Some []
      else case c of
             Slot i \<Rightarrow>
               if i < NBUF s then map_option (Cons i) (chain s k h (b_next (bcache_buf s ! i)))
               else None
           | _ \<Rightarrow> None)"

declare chain.simps [simp del]

text \<open>
  The buffers on the list of bucket \<open>h\<close>, in order. A list of buffers of the pool without repetition has at most \<open>NBUF\<close> elements.
\<close>

definition members :: "bcache \<Rightarrow> nat \<Rightarrow> nat list option" where
  "members s h = chain s (NBUF s) h (b_next (bucket_head s ! h))"

text \<open>
  The list of bucket \<open>h\<close> is a doubly-linked ring without repetition.
\<close>

definition linked :: "bcache \<Rightarrow> nat \<Rightarrow> bool" where
  "linked s h =
     (case members s h of
        None \<Rightarrow> False
      | Some xs \<Rightarrow> distinct xs \<and> ring (nxt s) (prv s) h xs)"

text \<open>
  Buffer \<open>i\<close> is on the list of bucket \<open>h\<close>.
\<close>

definition in_bucket :: "bcache \<Rightarrow> nat \<Rightarrow> nat \<Rightarrow> bool" where
  "in_bucket s h i = (case members s h of None \<Rightarrow> False | Some xs \<Rightarrow> i \<in> set xs)"

text \<open>
  The same, with callers that pass \<open>brelse\<close>, \<open>bpin\<close> and \<open>bunpin\<close> only buffers they hold a reference to.
\<close>

inductive disciplined :: "bcache \<Rightarrow> bool" where
  boot: "binit (boot nbuf dsk) = Inr s \<Longrightarrow> disciplined s"
| tick: "disciplined s \<Longrightarrow> ticks s \<le> t \<Longrightarrow> disciplined (s\<lparr>ticks := t\<rparr>)"
| bread: "disciplined s \<Longrightarrow> bread p d n s = Some (Inr (b, s')) \<Longrightarrow> disciplined s'"
| bwrite: "disciplined s \<Longrightarrow> bwrite p b s = Inr s' \<Longrightarrow> disciplined s'"
| brelse: "disciplined s \<Longrightarrow> deref s b = Some x \<Longrightarrow> refcnt x \<noteq> 0 \<Longrightarrow>
           brelse p b s = Inr s' \<Longrightarrow> disciplined s'"
| bpin: "disciplined s \<Longrightarrow> deref s b = Some x \<Longrightarrow> refcnt x \<noteq> 0 \<Longrightarrow>
         bpin b s = Inr s' \<Longrightarrow> disciplined s'"
| bunpin: "disciplined s \<Longrightarrow> deref s b = Some x \<Longrightarrow> refcnt x \<noteq> 0 \<Longrightarrow>
           bunpin b s = Inr s' \<Longrightarrow> disciplined s'"

text \<open>
  Every time stamp is the \<open>-1\<close> of \<open>binit\<close> or a tick.
\<close>

definition stamped :: "bcache \<Rightarrow> bool" where
  "stamped s \<longleftrightarrow> (\<forall>i < NBUF s. - 1 \<le> lu_time (bcache_buf s ! i))"

text \<open>
  A buffer has the data of its block.
\<close>

definition filled :: "bcache \<Rightarrow> nat \<Rightarrow> bool" where
  "filled s i \<longleftrightarrow> valid (bcache_buf s ! i) \<noteq> 0"

text \<open>
  Every buffer with valid data is the one the scan of its bucket finds for its block.
\<close>

definition uniqv :: "bcache \<Rightarrow> nat list list \<Rightarrow> bool" where
  "uniqv s bs \<longleftrightarrow> (\<forall>h < NBUCKET. \<forall>i \<in> set (bs ! h). filled s i \<longrightarrow> first_match s (bs ! h) i)"

section \<open>The allocator: proofs\<close>

subsection \<open>The stealing loop\<close>

lemma steal_find:
  "steal cid i s =
     (case first_nonempty s (map (\<lambda>k. (cid + k) mod NCPU s) [i..<NCPU s]) of
        None \<Rightarrow> (0, s)
      | Some j \<Rightarrow> (freelist s ! j, pop j s))"
proof (induction cid i s rule: steal.induct)
  case (1 cid i s)
  show ?case
  proof (cases "i < NCPU s")
    case False
    then show ?thesis
      by (subst steal.simps) (simp add: first_nonempty_def)
  next
    case True
    then have range: "[i..<NCPU s] = i # [Suc i..<NCPU s]"
      by (simp add: upt_conv_Cons)
    show ?thesis
    proof (cases "freelist s ! ((cid + i) mod NCPU s) = 0")
      case empty: True
      with True "1.IH" [OF True refl refl] show ?thesis
        by (subst steal.simps) (simp add: range first_nonempty_def)
    next
      case False
      with True show ?thesis
        by (subst steal.simps) (simp add: range first_nonempty_def Let_def)
    qed
  qed
qed

lemma probe_order_covers:
  assumes "cid < n" "j < n" "j \<noteq> cid"
  shows "j \<in> set (probe_order cid n)"
proof -
  let ?i = "(j + n - cid) mod n"
  have "?i < n"
    using assms by simp
  moreover have "?i \<noteq> 0"
  proof
    assume z: "?i = 0"
    show False
    proof (cases "cid < j")
      case True
      with assms have "(j + n - cid) mod n = j - cid"
        by (simp add: mod_if)
      with z True show False by simp
    next
      case False
      with assms have "j + n - cid < n" "j + n - cid \<noteq> 0"
        by auto
      with z show False by simp
    qed
  qed
  moreover have "(cid + ?i) mod n = j"
  proof -
    have "(cid + ?i) mod n = (cid + (j + n - cid)) mod n"
      by (simp add: mod_add_right_eq)
    also have "cid + (j + n - cid) = j + n"
      using assms by simp
    finally show ?thesis
      using assms by simp
  qed
  ultimately have "?i \<in> {1..<n}" and eq: "(cid + ?i) mod n = j"
    by auto
  then have "(cid + ?i) mod n \<in> (\<lambda>i. (cid + i) mod n) ` {1..<n}"
    by (intro imageI)
  then show ?thesis
    by (simp add: probe_order_def eq)
qed

lemma probe_order_range:
  "0 < n \<Longrightarrow> j \<in> set (probe_order cid n) \<Longrightarrow> j < n"
  by (auto simp: probe_order_def)

lemma first_nonempty_None:
  "first_nonempty s js = None \<longleftrightarrow> (\<forall>j \<in> set js. freelist s ! j = 0)"
  by (auto simp: first_nonempty_def find_None_iff)

lemma first_nonempty_Some:
  "first_nonempty s js = Some j \<Longrightarrow> j \<in> set js \<and> freelist s ! j \<noteq> 0"
  by (auto simp: first_nonempty_def find_Some_iff)

lemma kalloc_local:
  "freelist s ! cid \<noteq> 0 \<Longrightarrow>
   kalloc cid s = (freelist s ! cid, memset (freelist s ! cid) 5 (pop cid s))"
  by (simp add: kalloc_def Let_def)

lemma kalloc_remote:
  assumes "freelist s ! cid = 0"
  shows "kalloc cid s =
     (case first_nonempty s (probe_order cid (NCPU s)) of
        None \<Rightarrow> (0, s)
      | Some j \<Rightarrow> (freelist s ! j, memset (freelist s ! j) 5 (pop j s)))"
proof (cases "first_nonempty s (probe_order cid (NCPU s))")
  case None
  with assms show ?thesis
    by (simp add: kalloc_def Let_def steal_find probe_order_def)
next
  case (Some j)
  then have "freelist s ! j \<noteq> 0"
    by (simp add: first_nonempty_Some)
  with assms Some show ?thesis
    by (simp add: kalloc_def Let_def steal_find probe_order_def)
qed

lemma kalloc_null_iff:
  assumes "cid < NCPU s"
  shows "fst (kalloc cid s) = 0 \<longleftrightarrow> (\<forall>j < NCPU s. freelist s ! j = 0)"
proof (cases "freelist s ! cid = 0")
  case False
  with assms show ?thesis
    by (auto simp: kalloc_local)
next
  case True
  show ?thesis
  proof (cases "first_nonempty s (probe_order cid (NCPU s))")
    case (Some j)
    then have "j \<in> set (probe_order cid (NCPU s))" "freelist s ! j \<noteq> 0"
      by (simp_all add: first_nonempty_Some)
    moreover from this assms have "j < NCPU s"
      by (auto dest: probe_order_range [rotated])
    ultimately show ?thesis
      using True Some by (auto simp: kalloc_remote)
  next
    case None
    have "freelist s ! j = 0" if "j < NCPU s" for j
    proof (cases "j = cid")
      case True
      with \<open>freelist s ! cid = 0\<close> show ?thesis by simp
    next
      case False
      with assms that have "j \<in> set (probe_order cid (NCPU s))"
        by (simp add: probe_order_covers)
      with None show ?thesis
        by (simp add: first_nonempty_None)
    qed
    with True None show ?thesis
      by (simp add: kalloc_remote)
  qed
qed

lemma unat_PGSIZE: "unat PGSIZE = 4096"
  by (simp add: PGSIZE_def)

lemma aligned_iff: "pa mod PGSIZE = 0 \<longleftrightarrow> 4096 dvd unat pa"
proof -
  have "pa mod PGSIZE = 0 \<longleftrightarrow> unat (pa mod PGSIZE) = 0"
    by (simp add: unat_eq_0)
  also have "\<dots> \<longleftrightarrow> unat pa mod 4096 = 0"
    by (simp add: unat_mod unat_PGSIZE)
  finally show ?thesis
    by (simp add: mod_eq_0_iff_dvd)
qed

lemma run_list_upd:
  "a \<notin> set xs \<Longrightarrow> run_list (m(a := v)) p xs = run_list m p xs"
  by (induction xs arbitrary: p) auto


subsection \<open>The first shard that is not empty\<close>

lemma find_upt:
  assumes "a \<le> i" "i < b" "P (f i)" "\<forall>k. a \<le> k \<and> k < i \<longrightarrow> \<not> P (f k)"
  shows "find P (map f [a..<b]) = Some (f i)"
  using assms
proof (induction "i - a" arbitrary: a)
  case 0
  then have "a = i" by simp
  with 0 show ?case by (simp add: upt_conv_Cons)
next
  case (Suc d)
  then have a: "a < i" "a < b" "\<not> P (f a)" by auto
  from Suc(1) [of "Suc a"] Suc(2-) have "find P (map f [Suc a..<b]) = Some (f i)"
    by auto
  with a show ?case by (simp add: upt_conv_Cons)
qed

lemma first_probe:
  assumes "cid < NCPU s" "i < NCPU s" "freelist s ! ((cid + i) mod NCPU s) \<noteq> 0"
    and "\<forall>k < i. freelist s ! ((cid + k) mod NCPU s) = 0"
  shows "if i = 0 then freelist s ! cid \<noteq> 0
         else freelist s ! cid = 0 \<and>
              first_nonempty s (probe_order cid (NCPU s)) = Some ((cid + i) mod NCPU s)"
proof (cases "i = 0")
  case True
  with assms(1,3) show ?thesis by simp
next
  case False
  with assms(4) [rule_format, of 0] assms(1) have z: "freelist s ! cid = 0" by simp
  have "find (\<lambda>j. freelist s ! j \<noteq> 0) (map (\<lambda>k. (cid + k) mod NCPU s) [1..<NCPU s])
          = Some ((cid + i) mod NCPU s)"
    using False assms(2,3,4) by (intro find_upt) auto
  with False z show ?thesis
    by (simp add: first_nonempty_def probe_order_def)
qed

lemma probe_exists:
  assumes "cid < NCPU s" "j < NCPU s" "freelist s ! j \<noteq> 0"
  shows "\<exists>i < NCPU s. freelist s ! ((cid + i) mod NCPU s) \<noteq> 0 \<and>
           (\<forall>k < i. freelist s ! ((cid + k) mod NCPU s) = 0)"
proof -
  let ?P = "\<lambda>i. i < NCPU s \<and> freelist s ! ((cid + i) mod NCPU s) \<noteq> 0"
  have "\<exists>i. ?P i"
  proof (cases "j = cid")
    case True
    with assms have "?P 0" by simp
    then show ?thesis ..
  next
    case False
    from probe_order_covers [OF assms(1,2) False]
    obtain i where "i < NCPU s" "j = (cid + i) mod NCPU s"
      by (auto simp: probe_order_def)
    with assms(3) have "?P i" by simp
    then show ?thesis ..
  qed
  then obtain i where i: "?P i" "\<forall>k < i. \<not> ?P k"
    using exists_least_iff [of ?P] by blast
  then have "\<forall>k < i. freelist s ! ((cid + k) mod NCPU s) = 0" by auto
  with i(1) show ?thesis by blast
qed

lemma run_list_same:
  "run_list m p xs \<Longrightarrow> run_list m p ys \<Longrightarrow> xs = ys"
proof (induction xs arbitrary: p ys)
  case Nil
  then show ?case by (cases ys) auto
next
  case (Cons a as)
  then show ?case by (cases ys) auto
qed

lemma run_list_from:
  "run_list m p xs \<Longrightarrow> x \<in> set xs \<Longrightarrow> \<exists>ys zs. xs = ys @ x # zs \<and> run_list m x (x # zs)"
proof (induction xs arbitrary: p)
  case Nil
  then show ?case by simp
next
  case (Cons a as)
  show ?case
  proof (cases "x = a")
    case True
    with Cons.prems(1) have "a # as = [] @ x # as \<and> run_list m x (x # as)" by simp
    then show ?thesis by blast
  next
    case False
    with Cons.prems have "run_list m (run_next (m a)) as" "x \<in> set as" by auto
    from Cons.IH [OF this] obtain ys zs where "as = ys @ x # zs" "run_list m x (x # zs)"
      by blast
    then have "a # as = (a # ys) @ x # zs \<and> run_list m x (x # zs)" by simp
    then show ?thesis by blast
  qed
qed

lemma run_list_head:
  assumes "run_list m a (a # as)"
  shows "a \<notin> set as"
proof
  assume "a \<in> set as"
  from assms have "run_list m (run_next (m a)) as" by simp
  from run_list_from [OF this \<open>a \<in> set as\<close>] obtain ys zs
    where s: "as = ys @ a # zs" "run_list m a (a # zs)" by blast
  from run_list_same [OF assms s(2)] have "as = zs" by simp
  with s(1) show False by simp
qed

lemma junk_5:
  "rest (junk 5) = replicate 4088 5" "run_next (junk 5) = 0x0505050505050505"
proof -
  show "rest (junk 5) = replicate 4088 5"
    by (simp add: junk_def PGSIZE_def)
  have "replicate 8 (5 :: 8 word) = [5, 5, 5, 5, 5, 5, 5, 5]"
    by (simp add: eval_nat_numeral)
  then show "run_next (junk 5) = 0x0505050505050505"
    by (simp add: junk_def word_rcat_def)
qed

lemma kalloc_first:
  assumes "cid < NCPU s" "i < NCPU s" "freelist s ! ((cid + i) mod NCPU s) \<noteq> 0"
    and "\<forall>k < i. freelist s ! ((cid + k) mod NCPU s) = 0"
  shows "kalloc cid s =
           (freelist s ! ((cid + i) mod NCPU s),
            s\<lparr>freelist := (freelist s)
                 [(cid + i) mod NCPU s := run_next (mem s (freelist s ! ((cid + i) mod NCPU s)))],
              mem := (mem s)(freelist s ! ((cid + i) mod NCPU s) := junk 5)\<rparr>)"
proof (cases "i = 0")
  case True
  with first_probe [OF assms] assms(1) show ?thesis
    by (simp add: kalloc_local pop_def memset_def)
next
  case False
  with first_probe [OF assms] show ?thesis
    by (simp add: kalloc_remote pop_def memset_def)
qed

subsection \<open>Allocation\<close>

text \<open>
  C6. \<open>kalloc\<close> on CPU \<open>cid\<close> looks at the shards \<open>(cid + i) mod NCPU\<close> for
  \<open>i = 0, 1, .., NCPU - 1\<close> in this order, its own shard first, and takes the head
  of the first one that is not empty: the head is returned, the free list of that
  shard begins at the head's \<open>next\<close>, the head of every other shard is as before,
  and in memory only the returned frame changes, which is filled with the byte 5. On
  the free lists as sequences of frames: the list of that shard loses its first
  frame and no other, and the list of every other shard is the same. The null pointer
  is returned exactly when every shard is empty, and then nothing changes.
\<close>

theorem kalloc_pops_local_or_steals:
  assumes "cid < NCPU s"
  shows "(freelist s ! cid \<noteq> 0 \<longrightarrow>
            kalloc cid s = (freelist s ! cid, memset (freelist s ! cid) 5 (pop cid s)))
       \<and> (freelist s ! cid = 0 \<longrightarrow>
            kalloc cid s =
              (case first_nonempty s (probe_order cid (NCPU s)) of
                 None \<Rightarrow> (0, s)
               | Some j \<Rightarrow> (freelist s ! j, memset (freelist s ! j) 5 (pop j s))))
       \<and> (fst (kalloc cid s) = 0 \<longleftrightarrow> (\<forall>j < NCPU s. freelist s ! j = 0))
       \<and> (fst (kalloc cid s) = 0 \<longrightarrow> snd (kalloc cid s) = s)
       \<and> ((\<exists>j < NCPU s. freelist s ! j \<noteq> 0) \<longrightarrow>
            (\<exists>i < NCPU s. freelist s ! ((cid + i) mod NCPU s) \<noteq> 0 \<and>
               (\<forall>k < i. freelist s ! ((cid + k) mod NCPU s) = 0)))
       \<and> (\<forall>i < NCPU s.
            freelist s ! ((cid + i) mod NCPU s) \<noteq> 0 \<and>
            (\<forall>k < i. freelist s ! ((cid + k) mod NCPU s) = 0) \<longrightarrow>
            fst (kalloc cid s) = freelist s ! ((cid + i) mod NCPU s) \<and>
            freelist (snd (kalloc cid s)) =
              (freelist s)[(cid + i) mod NCPU s := run_next (mem s (fst (kalloc cid s)))] \<and>
            (\<forall>a. a \<noteq> fst (kalloc cid s) \<longrightarrow> mem (snd (kalloc cid s)) a = mem s a) \<and>
            run_next (mem (snd (kalloc cid s)) (fst (kalloc cid s))) = 0x0505050505050505 \<and>
            rest (mem (snd (kalloc cid s)) (fst (kalloc cid s))) = replicate 4088 5 \<and>
            (\<forall>xs. run_list (mem s) (freelist s ! ((cid + i) mod NCPU s)) xs \<longrightarrow>
               xs \<noteq> [] \<and> hd xs = fst (kalloc cid s) \<and>
               run_list (mem (snd (kalloc cid s)))
                 (freelist (snd (kalloc cid s)) ! ((cid + i) mod NCPU s)) (tl xs)) \<and>
            (\<forall>j xs. j < NCPU s \<and> j \<noteq> (cid + i) mod NCPU s \<and>
               run_list (mem s) (freelist s ! j) xs \<and> fst (kalloc cid s) \<notin> set xs \<longrightarrow>
               run_list (mem (snd (kalloc cid s))) (freelist (snd (kalloc cid s)) ! j) xs))"
proof -
  have none: "snd (kalloc cid s) = s" if "fst (kalloc cid s) = 0"
  proof -
    from that kalloc_null_iff [OF assms] have z: "\<forall>j < NCPU s. freelist s ! j = 0" by simp
    with assms have "freelist s ! cid = 0" by simp
    moreover have "first_nonempty s (probe_order cid (NCPU s)) = None"
      using z assms by (auto simp: first_nonempty_None dest: probe_order_range [rotated])
    ultimately show ?thesis by (simp add: kalloc_remote)
  qed
  have some: "\<exists>i < NCPU s. freelist s ! ((cid + i) mod NCPU s) \<noteq> 0 \<and>
               (\<forall>k < i. freelist s ! ((cid + k) mod NCPU s) = 0)"
    if "\<exists>j < NCPU s. freelist s ! j \<noteq> 0"
    using that probe_exists [OF assms] by blast
  have first: "fst (kalloc cid s) = freelist s ! ((cid + i) mod NCPU s) \<and>
            freelist (snd (kalloc cid s)) =
              (freelist s)[(cid + i) mod NCPU s := run_next (mem s (fst (kalloc cid s)))] \<and>
            (\<forall>a. a \<noteq> fst (kalloc cid s) \<longrightarrow> mem (snd (kalloc cid s)) a = mem s a) \<and>
            run_next (mem (snd (kalloc cid s)) (fst (kalloc cid s))) = 0x0505050505050505 \<and>
            rest (mem (snd (kalloc cid s)) (fst (kalloc cid s))) = replicate 4088 5 \<and>
            (\<forall>xs. run_list (mem s) (freelist s ! ((cid + i) mod NCPU s)) xs \<longrightarrow>
               xs \<noteq> [] \<and> hd xs = fst (kalloc cid s) \<and>
               run_list (mem (snd (kalloc cid s)))
                 (freelist (snd (kalloc cid s)) ! ((cid + i) mod NCPU s)) (tl xs)) \<and>
            (\<forall>j xs. j < NCPU s \<and> j \<noteq> (cid + i) mod NCPU s \<and>
               run_list (mem s) (freelist s ! j) xs \<and> fst (kalloc cid s) \<notin> set xs \<longrightarrow>
               run_list (mem (snd (kalloc cid s))) (freelist (snd (kalloc cid s)) ! j) xs)"
    if i: "i < NCPU s" "freelist s ! ((cid + i) mod NCPU s) \<noteq> 0"
      "\<forall>k < i. freelist s ! ((cid + k) mod NCPU s) = 0" for i
  proof -
    let ?j = "(cid + i) mod NCPU s"
    let ?r = "freelist s ! ?j"
    let ?s' = "s\<lparr>freelist := (freelist s)[?j := run_next (mem s ?r)],
                 mem := (mem s)(?r := junk 5)\<rparr>"
    from assms have "0 < length (freelist s)" by (cases "freelist s") (simp_all add: NCPU_def)
    then have j: "?j < length (freelist s)" by (simp add: NCPU_def)
    have k: "kalloc cid s = (?r, ?s')"
      by (rule kalloc_first [OF assms i])
    have own: "xs \<noteq> [] \<and> hd xs = ?r \<and> run_list (mem ?s') (freelist ?s' ! ?j) (tl xs)"
      if l: "run_list (mem s) ?r xs" for xs
    proof (cases xs)
      case Nil
      with l i(2) show ?thesis by simp
    next
      case (Cons a as)
      with l have a: "a = ?r" and t: "run_list (mem s) (run_next (mem s ?r)) as" by simp_all
      from l Cons a have "run_list (mem s) ?r (?r # as)" by simp
      then have "?r \<notin> set as" by (rule run_list_head)
      with t have "run_list ((mem s)(?r := junk 5)) (run_next (mem s ?r)) as"
        by (simp add: run_list_upd)
      with Cons a j show ?thesis by simp
    qed
    have other: "run_list (mem ?s') (freelist ?s' ! j) xs"
      if "j \<noteq> ?j" "run_list (mem s) (freelist s ! j) xs" "?r \<notin> set xs" for j xs
      using that by (simp add: run_list_upd)
    from own other show ?thesis
      by (simp add: k junk_5)
  qed
  from kalloc_local [of s cid] kalloc_remote [of s cid] kalloc_null_iff [OF assms] none some first
  show ?thesis by blast
qed

theorem kalloc_pops_local_or_steals_witness:
  "\<exists>s s'. s = \<lparr>freelist = [0, 0, 8192, 12288],
               mem = (\<lambda>a. \<lparr>run_next = (if a = 8192 then 4096 else 0), rest = []\<rparr>)\<rparr> \<and>
     (0::nat) < NCPU s \<and> freelist s ! 0 = 0 \<and> freelist s ! 1 = 0 \<and>
     run_list (mem s) (freelist s ! 2) [8192, 4096] \<and>
     run_list (mem s) (freelist s ! 3) [12288] \<and>
     kalloc 0 s = (8192, s') \<and>
     freelist s' = [0, 0, 4096, 12288] \<and>
     mem s' 4096 = mem s 4096 \<and> mem s' 12288 = mem s 12288 \<and>
     rest (mem s' 8192) = replicate 4088 5 \<and>
     run_list (mem s') (freelist s' ! 2) [4096] \<and>
     run_list (mem s') (freelist s' ! 3) [12288]"
proof -
  define s where "s = \<lparr>freelist = [0, 0, 8192, 12288],
               mem = (\<lambda>a. \<lparr>run_next = (if a = (8192 :: 64 word) then 4096 else 0), rest = []\<rparr>)\<rparr>"
  have n: "0 < NCPU s" "2 < NCPU s" "3 < NCPU s" "NCPU s = 4" by (simp_all add: s_def NCPU_def)
  have f: "freelist s = [0, 0, 8192, 12288]" by (simp add: s_def)
  have l2: "run_list (mem s) (freelist s ! 2) [8192, 4096]"
    and l3: "run_list (mem s) (freelist s ! 3) [12288]"
    by (simp_all add: s_def)
  have "freelist s ! ((0 + k) mod NCPU s) = 0" if "k < 2" for k
  proof -
    from that have "k = 0 \<or> k = 1" by auto
    then show ?thesis by (auto simp: n f)
  qed
  then have e: "freelist s ! ((0 + 2) mod NCPU s) \<noteq> 0 \<and>
           (\<forall>k < 2. freelist s ! ((0 + k) mod NCPU s) = 0)"
    by (simp add: n f)
  note t = kalloc_pops_local_or_steals [OF n(1), THEN conjunct2, THEN conjunct2, THEN conjunct2,
      THEN conjunct2, THEN conjunct2, rule_format, OF n(2) e]
  obtain r s' where k: "kalloc 0 s = (r, s')" by (cases "kalloc 0 s")
  have nx: "run_next (mem s 8192) = 4096" by (simp add: s_def)
  from t [THEN conjunct1] have r: "r = 8192"
    by (simp add: k n f)
  from t [THEN conjunct2, THEN conjunct1] have fl: "freelist s' = [0, 0, 4096, 12288]"
    by (simp add: k r n f nx)
  note t3 = t [THEN conjunct2, THEN conjunct2, THEN conjunct1, rule_format]
  from t3 [of 4096] t3 [of 12288]
  have m: "mem s' 4096 = mem s 4096" "mem s' 12288 = mem s 12288"
    by (simp_all add: k r)
  from t [THEN conjunct2, THEN conjunct2, THEN conjunct2, THEN conjunct2, THEN conjunct1]
  have m5: "rest (mem s' 8192) = replicate 4088 5"
    by (simp add: k r)
  have two: "(0 + 2) mod NCPU s = 2" by (simp add: n)
  with l2 have "run_list (mem s) (freelist s ! ((0 + 2) mod NCPU s)) [8192, 4096]"
    by (simp del: run_list.simps)
  from t [THEN conjunct2, THEN conjunct2, THEN conjunct2, THEN conjunct2, THEN conjunct2,
      THEN conjunct1, rule_format, OF this]
  have o: "run_list (mem s') (freelist s' ! 2) [4096]"
    by (simp only: k two fst_conv snd_conv list.sel)
  have "3 < NCPU s \<and> 3 \<noteq> (0 + 2) mod NCPU s \<and> run_list (mem s) (freelist s ! 3) [12288] \<and>
        fst (kalloc 0 s) \<notin> set [12288]"
    using l3 by (simp add: n k r)
  from t [THEN conjunct2, THEN conjunct2, THEN conjunct2, THEN conjunct2, THEN conjunct2,
      THEN conjunct2, rule_format, OF this]
  have p: "run_list (mem s') (freelist s' ! 3) [12288]"
    by (simp add: k del: run_list.simps)
  have z: "freelist s ! 0 = 0" "freelist s ! 1 = 0" by (simp_all add: f)
  from n(1) z l2 l3 k r fl m m5 o p
  have "s = s \<and> 0 < NCPU s \<and> freelist s ! 0 = 0 \<and> freelist s ! 1 = 0 \<and>
     run_list (mem s) (freelist s ! 2) [8192, 4096] \<and>
     run_list (mem s) (freelist s ! 3) [12288] \<and>
     kalloc 0 s = (8192, s') \<and>
     freelist s' = [0, 0, 4096, 12288] \<and>
     mem s' 4096 = mem s 4096 \<and> mem s' 12288 = mem s 12288 \<and>
     rest (mem s' 8192) = replicate 4088 5 \<and>
     run_list (mem s') (freelist s' ! 2) [4096] \<and>
     run_list (mem s') (freelist s' ! 3) [12288]"
    by (simp del: run_list.simps)
  then show ?thesis
    unfolding s_def by (intro exI)
qed

subsection \<open>Freeing\<close>

text \<open>
  C7. \<open>kfree(pa)\<close> panics exactly when \<open>pa\<close> is not a multiple of the page size, is
  below the kernel end or is at or above \<open>PHYSTOP\<close>. For every other \<open>pa\<close> it returns:
  the frame is the new head of the calling CPU's free list, its \<open>next\<close> is the old
  head, and the heads of all other shards and all other frames are as before.
\<close>

theorem kfree_panics_or_pushes:
  assumes "cid < NCPU s"
  shows "(kfree kend phystop cid pa s = Inl (Panic ''kfree'')
            \<longleftrightarrow> \<not> 4096 dvd unat pa \<or> pa < kend \<or> phystop \<le> pa)
       \<and> (\<not> (\<not> 4096 dvd unat pa \<or> pa < kend \<or> phystop \<le> pa) \<longrightarrow>
            (\<exists>s'. kfree kend phystop cid pa s = Inr s'
               \<and> NCPU s' = NCPU s
               \<and> freelist s' ! cid = pa
               \<and> run_next (mem s' pa) = freelist s ! cid
               \<and> (\<forall>j < NCPU s. j \<noteq> cid \<longrightarrow> freelist s' ! j = freelist s ! j)
               \<and> (\<forall>a. a \<noteq> pa \<longrightarrow> mem s' a = mem s a)))"
  using assms
  by (auto simp: kfree_def Let_def memset_def NCPU_def aligned_iff [symmetric])

theorem kfree_panics_or_pushes_witness:
  "(0::nat) < NCPU \<lparr>freelist = [4096, 0], mem = (\<lambda>a. \<lparr>run_next = 0, rest = []\<rparr>)\<rparr>
   \<and> kfree 4096 32768 0 8193 \<lparr>freelist = [4096, 0], mem = (\<lambda>a. \<lparr>run_next = 0, rest = []\<rparr>)\<rparr>
       = Inl (Panic ''kfree'')
   \<and> (\<exists>s'. kfree 4096 32768 0 8192 \<lparr>freelist = [4096, 0], mem = (\<lambda>a. \<lparr>run_next = 0, rest = []\<rparr>)\<rparr>
              = Inr s'
          \<and> freelist s' = [8192, 0] \<and> run_next (mem s' 8192) = 4096)"
  using kfree_panics_or_pushes
          [of 0 "\<lparr>freelist = [4096, 0], mem = (\<lambda>a. \<lparr>run_next = 0, rest = []\<rparr>)\<rparr>"
              4096 32768 8193]
        kfree_panics_or_pushes
          [of 0 "\<lparr>freelist = [4096, 0], mem = (\<lambda>a. \<lparr>run_next = 0, rest = []\<rparr>)\<rparr>"
              4096 32768 8192]
  by (simp add: NCPU_def kfree_def Let_def memset_def PGSIZE_def)

text \<open>
  On the free lists as sequences of frames: freeing a frame that is on no free list
  puts it in front of the caller's list and leaves the list of every other shard as
  it was.
\<close>

lemma kfree_run_list:
  assumes "kfree kend phystop cid pa s = Inr s'" "cid < NCPU s" "pa \<noteq> 0"
    and "run_list (mem s) (freelist s ! j) xs" "pa \<notin> set xs" "j < NCPU s"
  shows "run_list (mem s') (freelist s' ! j) (if j = cid then pa # xs else xs)"
  using assms
  by (auto simp: kfree_def Let_def memset_def NCPU_def run_list_upd split: if_splits)

section \<open>The buffer cache: proofs\<close>

subsection \<open>Loads and stores, and doubly-linked rings\<close>

lemma obj_simps:
  "obj s (Head j) = bucket_head s ! j" "obj s (Slot i) = bcache_buf s ! i"
  by (simp_all add: obj_def)

lemma ok_simps [simp]:
  "\<not> ok s Null" "ok s (Head j) = (j < length (bucket_head s))" "ok s (Slot i) = (i < NBUF s)"
  by (simp_all add: ok_def)

lemma deref_ok: "ok s r \<Longrightarrow> deref s r = Some (obj s r)"
  by (cases r) (simp_all add: deref_def NBUF_def obj_simps)

lemma deref_not_ok: "\<not> ok s r \<Longrightarrow> deref s r = None"
  by (cases r) (simp_all add: deref_def NBUF_def)

lemma load_ok: "ok s r \<Longrightarrow> load s r = Inr (obj s r)"
  by (simp add: load_def deref_ok)

lemma assign_ok: "ok s r \<Longrightarrow> assign r f s = Inr (store r f s)"
  by (simp add: assign_def deref_ok)

lemma assign_not_ok: "\<not> ok s r \<Longrightarrow> assign r f s = Inl Trap"
  by (simp add: assign_def deref_not_ok)

lemma seq_Inr [simp]: "seq (Inr x) f = f x"
  by (simp add: seq_def)

lemma seq_Inl [simp]: "seq (Inl e) f = Inl e"
  by (simp add: seq_def)

lemma ok_store [simp]: "ok (store r f s) r' = ok s r'"
  by (cases r; cases r') (simp_all add: store_def NBUF_def)

lemma NBUF_store [simp]: "NBUF (store r f s) = NBUF s"
  by (cases r) (simp_all add: store_def NBUF_def)

lemma heads_store [simp]: "length (bucket_head (store r f s)) = length (bucket_head s)"
  by (cases r) (simp_all add: store_def)

lemma misc_store [simp]:
  "ticks (store r f s) = ticks s" "disk (store r f s) = disk s" "io (store r f s) = io s"
  by (cases r; simp add: store_def)+

lemma obj_store: "obj (store r f s) r' = (if r' = r \<and> ok s r then f (obj s r) else obj s r')"
  by (cases r; cases r') (auto simp: store_def obj_def NBUF_def list_update_beyond)

lemma head_store:
  "ok s r \<Longrightarrow> bucket_head (store r f s) ! j = (if r = Head j then f (bucket_head s ! j) else bucket_head s ! j)"
  by (cases r) (auto simp: store_def NBUF_def)

lemma buf_store:
  "ok s r \<Longrightarrow> bcache_buf (store r f s) ! i = (if r = Slot i then f (bcache_buf s ! i) else bcache_buf s ! i)"
  by (cases r) (auto simp: store_def NBUF_def)

lemma nxt_store:
  "ok s r \<Longrightarrow> nxt (store r f s) = (nxt s)(r := b_next (f (obj s r)))"
  by (rule ext) (simp add: nxt_def obj_store)

lemma prv_store:
  "ok s r \<Longrightarrow> prv (store r f s) = (prv s)(r := b_prev (f (obj s r)))"
  by (rule ext) (simp add: prv_def obj_store)

lemma dseg_frame:
  "\<forall>i \<in> set xs. N' (Slot i) = N (Slot i) \<and> P' (Slot i) = P (Slot i) \<Longrightarrow> P' e = P e \<Longrightarrow>
   dseg N' P' p c xs e = dseg N P p c xs e"
  by (induction xs arbitrary: p c) auto

lemma dseg_start: "dseg N P p c xs e \<Longrightarrow> c = first xs e"
  by (cases xs) (simp_all add: first_def)

lemma dseg_mid:
  "dseg N P p c (ys @ v # zs) e \<Longrightarrow>
   P (Slot v) = lastr p ys \<and> N (Slot v) = first zs e \<and> dseg N P (Slot v) (N (Slot v)) zs e"
proof (induction ys arbitrary: p c)
  case Nil
  then show ?case by (auto simp: lastr_def dest: dseg_start)
next
  case (Cons y ys)
  from Cons.prems have "dseg N P (Slot y) (N (Slot y)) (ys @ v # zs) e"
    by simp
  from Cons.IH [OF this] show ?case
    by (auto simp: lastr_def)
qed

lemma dseg_unlink:
  assumes "dseg N P p c (ys @ v # zs) e" "distinct (ys @ v # zs)"
    and "\<forall>i \<in> set (ys @ v # zs). p \<noteq> Slot i \<and> e \<noteq> Slot i"
    and N': "\<And>r. N' r = (if r = P (Slot v) then N (Slot v) else N r)"
    and P': "\<And>r. P' r = (if r = N (Slot v) then P (Slot v) else P r)"
  shows "dseg N' P' p (if ys = [] then N (Slot v) else c) (ys @ zs) e"
  using assms(1-3)
proof (induction ys arbitrary: p c)
  case Nil
  from Nil.prems have c: "c = Slot v" and pv: "P (Slot v) = p"
    and rest: "dseg N P (Slot v) (N (Slot v)) zs e" by simp_all
  show ?case
  proof (cases zs)
    case Nil
    with rest pv show ?thesis by (simp add: P')
  next
    case (Cons z zs')
    with rest have nv: "N (Slot v) = Slot z" and "P (Slot z) = Slot v"
      and tl: "dseg N P (Slot z) (N (Slot z)) zs' e" by simp_all
    have "dseg N' P' (Slot z) (N (Slot z)) zs' e = dseg N P (Slot z) (N (Slot z)) zs' e"
    proof (rule dseg_frame)
      show "\<forall>i\<in>set zs'. N' (Slot i) = N (Slot i) \<and> P' (Slot i) = P (Slot i)"
        using Nil.prems(2,3) Cons pv nv by (auto simp: N' P')
      show "P' e = P e"
        using Nil.prems(3) Cons nv by (auto simp: P')
    qed
    moreover have "N' (Slot z) = N (Slot z)"
      using Nil.prems(3) Cons pv by (auto simp: N')
    moreover have "P' (Slot z) = p"
      using nv pv by (simp add: P')
    ultimately show ?thesis
      using Cons tl nv by simp
  qed
next
  case (Cons y ys)
  from Cons.prems have c: "c = Slot y" and py: "P (Slot y) = p"
    and rest: "dseg N P (Slot y) (N (Slot y)) (ys @ v # zs) e" by simp_all
  note mid = dseg_mid [OF rest]
  have ih: "dseg N' P' (Slot y) (if ys = [] then N (Slot v) else N (Slot y)) (ys @ zs) e"
    using Cons.prems by (intro Cons.IH [OF rest]) auto
  have nv: "N (Slot v) \<noteq> Slot y"
    using mid Cons.prems(2,3) by (auto simp: first_def split: list.splits)
  have "N' (Slot y) = (if ys = [] then N (Slot v) else N (Slot y))"
    using mid Cons.prems(2) by (auto simp: lastr_def N')
  moreover have "P' (Slot y) = p"
    using nv py by (simp add: P')
  ultimately show ?case
    using ih c by simp
qed

lemma ring_unlink:
  assumes "ring N P h (ys @ v # zs)" "distinct (ys @ v # zs)"
    and N': "\<And>r. N' r = (if r = P (Slot v) then N (Slot v) else N r)"
    and P': "\<And>r. P' r = (if r = N (Slot v) then P (Slot v) else P r)"
  shows "ring N' P' h (ys @ zs)"
proof -
  from assms(1) have d: "dseg N P (Head h) (N (Head h)) (ys @ v # zs) (Head h)"
    by (simp add: ring_def)
  note mid = dseg_mid [OF d]
  have "N' (Head h) = (if ys = [] then N (Slot v) else N (Head h))"
    using mid by (auto simp: lastr_def N')
  moreover have "dseg N' P' (Head h)
           (if ys = [] then N (Slot v) else N (Head h)) (ys @ zs) (Head h)"
    by (rule dseg_unlink [OF d assms(2) _ N' P']) simp
  ultimately show ?thesis
    by (simp add: ring_def)
qed

lemma ring_frame:
  "\<forall>i \<in> set xs. N' (Slot i) = N (Slot i) \<and> P' (Slot i) = P (Slot i) \<Longrightarrow>
   P' (Head h) = P (Head h) \<Longrightarrow> N' (Head h) = N (Head h) \<Longrightarrow>
   ring N' P' h xs = ring N P h xs"
  by (simp add: ring_def dseg_frame)

lemma ring_push:
  assumes "ring N P h ws" "v \<notin> set ws" "distinct ws"
    and N': "\<And>r. N' r = (if r = Head h then Slot v else if r = Slot v then N (Head h) else N r)"
    and P': "\<And>r. P' r = (if r = N (Head h) then Slot v else if r = Slot v then Head h else P r)"
  shows "ring N' P' h (v # ws)"
proof -
  from assms(1) have d: "dseg N P (Head h) (N (Head h)) ws (Head h)"
    by (simp add: ring_def)
  have "dseg N' P' (Slot v) (N (Head h)) ws (Head h)"
  proof (cases ws)
    case Nil
    with d show ?thesis by (simp add: P')
  next
    case (Cons w ws')
    with d have nh: "N (Head h) = Slot w" and tl: "dseg N P (Slot w) (N (Slot w)) ws' (Head h)"
      by simp_all
    have "dseg N' P' (Slot w) (N (Slot w)) ws' (Head h) = dseg N P (Slot w) (N (Slot w)) ws' (Head h)"
      using assms(2,3) Cons nh by (intro dseg_frame) (auto simp: N' P')
    moreover have "N' (Slot w) = N (Slot w)"
      using assms(2) Cons by (auto simp: N')
    moreover have "P' (Slot w) = Slot v"
      using nh by (simp add: P')
    ultimately show ?thesis
      using Cons tl nh by simp
  qed
  moreover have "P' (Slot v) = Head h"
    using dseg_start [OF d] assms(2) by (auto simp: first_def P' split: list.splits)
  moreover have "N' (Head h) = Slot v" "N' (Slot v) = N (Head h)"
    by (simp_all add: N')
  ultimately show ?thesis
    by (simp add: ring_def)
qed

subsection \<open>Taking a buffer out of its list\<close>

lemma rings_len: "rings s bs \<Longrightarrow> length bs = NBUCKET \<and> length (bucket_head s) = NBUCKET"
  by (simp add: rings_def)

lemma rings_ring: "rings s bs \<Longrightarrow> h < NBUCKET \<Longrightarrow> ring (nxt s) (prv s) h (bs ! h)"
  by (simp add: rings_def)

lemma rings_distinct: "rings s bs \<Longrightarrow> h < NBUCKET \<Longrightarrow> distinct (bs ! h)"
  by (simp add: rings_def)

lemma rings_bound: "rings s bs \<Longrightarrow> h < NBUCKET \<Longrightarrow> i \<in> set (bs ! h) \<Longrightarrow> i < NBUF s"
  by (simp add: rings_def)

lemma rings_disjoint:
  "rings s bs \<Longrightarrow> h1 < NBUCKET \<Longrightarrow> h2 < NBUCKET \<Longrightarrow> h1 \<noteq> h2 \<Longrightarrow>
   i \<in> set (bs ! h1) \<Longrightarrow> i \<notin> set (bs ! h2)"
  unfolding rings_def by blast

lemma ok_first: "ok s e \<Longrightarrow> \<forall>i \<in> set zs. i < NBUF s \<Longrightarrow> ok s (first zs e)"
  by (cases zs) (simp_all add: first_def)

lemma ok_lastr: "ok s p \<Longrightarrow> \<forall>i \<in> set ys. i < NBUF s \<Longrightarrow> ok s (lastr p ys)"
  by (simp add: lastr_def)

lemma first_neq: "v \<notin> set zs \<Longrightarrow> first zs (Head h) \<noteq> Slot v"
  by (cases zs) (auto simp: first_def)

lemma lastr_neq: "v \<notin> set ys \<Longrightarrow> lastr (Head h) ys \<noteq> Slot v"
  by (auto simp: lastr_def)

lemma ring_member:
  assumes "rings s bs" "hl < NBUCKET" "bs ! hl = ys @ l # zs"
  shows "nxt s (Slot l) = first zs (Head hl)" "prv s (Slot l) = lastr (Head hl) ys"
    "ok s (nxt s (Slot l))" "ok s (prv s (Slot l))" "l < NBUF s"
    "nxt s (Slot l) \<noteq> Slot l" "prv s (Slot l) \<noteq> Slot l"
    "l \<notin> set ys" "l \<notin> set zs" "distinct (ys @ zs)"
proof -
  from rings_ring [OF assms(1,2)] have r: "ring (nxt s) (prv s) hl (ys @ l # zs)"
    by (simp add: assms(3))
  from rings_distinct [OF assms(1,2)] have d: "distinct (ys @ l # zs)"
    by (simp add: assms(3))
  have b: "i < NBUF s" if "i \<in> set (ys @ l # zs)" for i
    using rings_bound [OF assms(1,2), of i] that by (simp add: assms(3))
  from rings_len [OF assms(1)] have len: "length (bucket_head s) = NBUCKET" ..
  from r have "dseg (nxt s) (prv s) (Head hl) (nxt s (Head hl)) (ys @ l # zs) (Head hl)"
    by (simp add: ring_def)
  note mid = dseg_mid [OF this]
  show n: "nxt s (Slot l) = first zs (Head hl)" and p: "prv s (Slot l) = lastr (Head hl) ys"
    using mid by simp_all
  show "l \<notin> set ys" "l \<notin> set zs" "distinct (ys @ zs)" "l < NBUF s"
    using d b by auto
  then show "nxt s (Slot l) \<noteq> Slot l" "prv s (Slot l) \<noteq> Slot l"
    by (simp_all add: n p first_neq lastr_neq)
  show "ok s (nxt s (Slot l))" "ok s (prv s (Slot l))"
    using b len assms(2) by (auto simp: n p intro!: ok_first ok_lastr)
qed

lemma detach_nxt:
  assumes "rings s bs" "hl < NBUCKET" "bs ! hl = ys @ l # zs"
  shows "nxt (detach l s) r = (if r = prv s (Slot l) then nxt s (Slot l) else nxt s r)"
  using ring_member(3,4) [OF assms]
  by (simp add: detach_def nxt_def obj_store)

lemma detach_prv:
  assumes "rings s bs" "hl < NBUCKET" "bs ! hl = ys @ l # zs"
  shows "prv (detach l s) r = (if r = nxt s (Slot l) then prv s (Slot l) else prv s r)"
  using ring_member(3,4) [OF assms]
  by (simp add: detach_def prv_def obj_store)

lemma detach_payload:
  assumes "rings s bs" "hl < NBUCKET" "bs ! hl = ys @ l # zs"
  shows "payload (obj (detach l s) r) = payload (obj s r)"
  using ring_member(3,4) [OF assms]
  by (simp add: detach_def obj_store payload_def)

lemma detach_misc [simp]:
  "NBUF (detach l s) = NBUF s" "length (bucket_head (detach l s)) = length (bucket_head s)"
  "ticks (detach l s) = ticks s" "disk (detach l s) = disk s" "io (detach l s) = io s"
  "ok (detach l s) r = ok s r"
  by (simp_all add: detach_def)

lemma first_cases: "first zs e = e \<or> (\<exists>z \<in> set zs. first zs e = Slot z)"
  by (cases zs) (simp_all add: first_def)

lemma lastr_cases: "lastr p ys = p \<or> (\<exists>y \<in> set ys. lastr p ys = Slot y)"
  by (auto simp: lastr_def)

lemma detach_rings:
  assumes "rings s bs" "hl < NBUCKET" "bs ! hl = ys @ l # zs"
  shows "rings (detach l s) (bs[hl := ys @ zs])"
proof -
  note m = ring_member [OF assms]
  note N = detach_nxt [OF assms] and P = detach_prv [OF assms]
  from rings_len [OF assms(1)] have len: "length bs = NBUCKET" ..
  have own: "ring (nxt (detach l s)) (prv (detach l s)) hl (ys @ zs)"
  proof (rule ring_unlink [where v = l])
    show "ring (nxt s) (prv s) hl (ys @ l # zs)"
      using rings_ring [OF assms(1,2)] by (simp add: assms(3))
    show "distinct (ys @ l # zs)"
      using rings_distinct [OF assms(1,2)] by (simp add: assms(3))
  qed (simp_all add: N P)
  have other: "ring (nxt (detach l s)) (prv (detach l s)) h (bs ! h)"
    if "h < NBUCKET" "h \<noteq> hl" for h
  proof -
    have dis: "i \<notin> set ys \<and> i \<notin> set zs" if "i \<in> set (bs ! h)" for i
      using rings_disjoint [OF assms(1) \<open>h < NBUCKET\<close> assms(2) \<open>h \<noteq> hl\<close> that]
      by (simp add: assms(3))
    have "ring (nxt (detach l s)) (prv (detach l s)) h (bs ! h) = ring (nxt s) (prv s) h (bs ! h)"
    proof (rule ring_frame)
      show "\<forall>i\<in>set (bs ! h). nxt (detach l s) (Slot i) = nxt s (Slot i) \<and>
              prv (detach l s) (Slot i) = prv s (Slot i)"
        using dis first_cases [of zs "Head hl"] lastr_cases [of "Head hl" ys]
        by (auto simp: N P m(1,2))
      show "prv (detach l s) (Head h) = prv s (Head h)"
        using that first_cases [of zs "Head hl"] by (auto simp: P m(1))
      show "nxt (detach l s) (Head h) = nxt s (Head h)"
        using that lastr_cases [of "Head hl" ys] by (auto simp: N m(2))
    qed
    with rings_ring [OF assms(1) \<open>h < NBUCKET\<close>] show ?thesis by simp
  qed
  show ?thesis
    unfolding rings_def
  proof (intro conjI allI impI)
    fix h assume h: "h < NBUCKET"
    show "ring (nxt (detach l s)) (prv (detach l s)) h (bs[hl := ys @ zs] ! h)"
      using own other h len assms(2) by (cases "h = hl") simp_all
    show "distinct (bs[hl := ys @ zs] ! h)"
      using rings_distinct [OF assms(1) h] h len m(10) by (cases "h = hl") simp_all
    show "\<forall>i\<in>set (bs[hl := ys @ zs] ! h). i < NBUF (detach l s)"
    proof (cases "h = hl")
      case True
      with rings_bound [OF assms(1,2)] len assms(2) show ?thesis
        by (auto simp: assms(3))
    next
      case False
      with rings_bound [OF assms(1) h] show ?thesis by simp
    qed
  next
    fix h1 h2 assume hh: "h1 < NBUCKET" "h2 < NBUCKET" "h1 \<noteq> h2"
    have "i \<notin> set (bs ! h2)" if "i \<in> set (bs ! h1)" for i
      using rings_disjoint [OF assms(1) hh that] .
    moreover have "set (bs[hl := ys @ zs] ! h) \<subseteq> set (bs ! h)" for h
      using assms(2,3) len by (cases "h = hl") auto
    ultimately show "set (bs[hl := ys @ zs] ! h1) \<inter> set (bs[hl := ys @ zs] ! h2) = {}"
      by blast
  qed (use rings_len [OF assms(1)] in simp_all)
qed

lemma detach_absent:
  assumes "rings s bs" "hl < NBUCKET" "bs ! hl = ys @ l # zs" "h < NBUCKET"
  shows "l \<notin> set (bs[hl := ys @ zs] ! h)"
proof (cases "h = hl")
  case True
  with assms(2) rings_len [OF assms(1)] ring_member(8,9) [OF assms(1-3)] show ?thesis
    by simp
next
  case False
  have "l \<in> set (bs ! hl)"
    by (simp add: assms(3))
  from rings_disjoint [OF assms(1,2,4) _ this] False show ?thesis
    by auto
qed

subsection \<open>Putting a buffer at the head of a list\<close>

lemma ring_head:
  assumes "rings s bs" "h < NBUCKET"
  shows "nxt s (Head h) = first (bs ! h) (Head h)" "ok s (nxt s (Head h))" "ok s (Head h)"
proof -
  from rings_ring [OF assms] have "dseg (nxt s) (prv s) (Head h) (nxt s (Head h)) (bs ! h) (Head h)"
    by (simp add: ring_def)
  from dseg_start [OF this] show n: "nxt s (Head h) = first (bs ! h) (Head h)" .
  from rings_len [OF assms(1)] assms(2) show k: "ok s (Head h)" by simp
  show "ok s (nxt s (Head h))"
    unfolding n using k rings_bound [OF assms] by (intro ok_first) auto
qed

lemma push_nxt:
  assumes "rings s bs" "h < NBUCKET" "l < NBUF s" "l \<notin> set (bs ! h)"
  shows "nxt (push h l g s) r =
           (if r = Head h then Slot l else if r = Slot l then nxt s (Head h) else nxt s r)"
  using ring_head [OF assms(1,2)] assms(3) first_neq [OF assms(4), of h]
  by (auto simp: push_def nxt_def obj_store)

lemma push_prv:
  assumes "rings s bs" "h < NBUCKET" "l < NBUF s" "l \<notin> set (bs ! h)"
  shows "prv (push h l g s) r =
           (if r = nxt s (Head h) then Slot l else if r = Slot l then Head h else prv s r)"
  using ring_head [OF assms(1,2)] assms(3) first_neq [OF assms(4), of h]
  by (auto simp: push_def prv_def nxt_def obj_store)

lemma push_payload:
  assumes "rings s bs" "h < NBUCKET" "l < NBUF s" "l \<notin> set (bs ! h)"
  shows "payload (obj (push h l g s) r) =
           (if r = Slot l then payload (g (obj s r)) else payload (obj s r))"
  using ring_head [OF assms(1,2)] assms(3) first_neq [OF assms(4), of h]
  by (auto simp: push_def obj_store payload_def)

lemma push_misc [simp]:
  "NBUF (push h l g s) = NBUF s"
  "length (bucket_head (push h l g s)) = length (bucket_head s)"
  "ticks (push h l g s) = ticks s" "disk (push h l g s) = disk s"
  "io (push h l g s) = io s" "ok (push h l g s) r = ok s r"
  by (simp_all add: push_def)

lemma attach_misc [simp]:
  "NBUF (attach h d n l s) = NBUF s"
  "length (bucket_head (attach h d n l s)) = length (bucket_head s)"
  "ticks (attach h d n l s) = ticks s" "disk (attach h d n l s) = disk s"
  "io (attach h d n l s) = io s" "ok (attach h d n l s) r = ok s r"
  by (simp_all add: attach_def)

lemma push_rings:
  assumes "rings s bs" "h < NBUCKET" "l < NBUF s" "\<forall>k < NBUCKET. l \<notin> set (bs ! k)"
  shows "rings (push h l g s) (bs[h := l # bs ! h])"
proof -
  let ?s = "push h l g s"
  from assms(2,4) have lh: "l \<notin> set (bs ! h)" by simp
  note hd = ring_head [OF assms(1,2)]
  note N = push_nxt [OF assms(1-3) lh] and P = push_prv [OF assms(1-3) lh]
  from rings_len [OF assms(1)] have len: "length bs = NBUCKET" ..
  have own: "ring (nxt ?s) (prv ?s) h (l # bs ! h)"
    by (rule ring_push [OF rings_ring [OF assms(1,2)] lh rings_distinct [OF assms(1,2)]])
       (simp_all add: N P)
  have other: "ring (nxt ?s) (prv ?s) k (bs ! k)" if "k < NBUCKET" "k \<noteq> h" for k
  proof -
    have dis: "i \<notin> set (bs ! h)" if "i \<in> set (bs ! k)" for i
      using rings_disjoint [OF assms(1) \<open>k < NBUCKET\<close> assms(2) \<open>k \<noteq> h\<close> that] .
    have "ring (nxt ?s) (prv ?s) k (bs ! k) = ring (nxt s) (prv s) k (bs ! k)"
    proof (rule ring_frame)
      show "\<forall>i\<in>set (bs ! k). nxt ?s (Slot i) = nxt s (Slot i) \<and> prv ?s (Slot i) = prv s (Slot i)"
        using dis assms(4) that(1) first_cases [of "bs ! h" "Head h"]
        by (auto simp: N P hd(1))
      show "prv ?s (Head k) = prv s (Head k)"
        using that first_cases [of "bs ! h" "Head h"] by (auto simp: P hd(1))
      show "nxt ?s (Head k) = nxt s (Head k)"
        using that by (simp add: N)
    qed
    with rings_ring [OF assms(1) \<open>k < NBUCKET\<close>] show ?thesis by simp
  qed
  show ?thesis
    unfolding rings_def
  proof (intro conjI allI impI)
    fix k assume k: "k < NBUCKET"
    show "ring (nxt ?s) (prv ?s) k (bs[h := l # bs ! h] ! k)"
      using own other k len assms(2) by (cases "k = h") simp_all
    show "distinct (bs[h := l # bs ! h] ! k)"
      using rings_distinct [OF assms(1) k] k len lh by (cases "k = h") simp_all
    show "\<forall>i\<in>set (bs[h := l # bs ! h] ! k). i < NBUF ?s"
      using rings_bound [OF assms(1) k] k len assms(3) by (cases "k = h") auto
  next
    fix h1 h2 assume hh: "h1 < NBUCKET" "h2 < NBUCKET" "h1 \<noteq> h2"
    have "i \<notin> set (bs ! h2)" if "i \<in> set (bs ! h1)" for i
      using rings_disjoint [OF assms(1) hh that] .
    moreover have "set (bs[h := l # bs ! h] ! k) \<subseteq> insert l (set (bs ! k))" for k
      using assms(2) len by (cases "k = h") auto
    moreover have "l \<in> set (bs[h := l # bs ! h] ! k) \<Longrightarrow> k < NBUCKET \<Longrightarrow> k = h" for k
      using assms(2,4) len by (cases "k = h") auto
    ultimately show "set (bs[h := l # bs ! h] ! h1) \<inter> set (bs[h := l # bs ! h] ! h2) = {}"
      using hh by blast
  qed (use rings_len [OF assms(1)] in simp_all)
qed

lemma store_store: "ok s r \<Longrightarrow> store r f (store r g s) = store r (f \<circ> g) s"
  by (cases r) (simp_all add: store_def NBUF_def)

lemma rebind_relink:
  assumes "rings s bs" "hl < NBUCKET" "bs ! hl = ys @ l # zs" "h < NBUCKET"
  shows "rebind p h d n l s =
           (case lock (bcache_buf s ! l) of
              Some q \<Rightarrow> Inl Asleep
            | None \<Rightarrow> Inr (Slot l, store (Slot l) (\<lambda>x. x\<lparr>lock := Some p\<rparr>) (relink h d n l s)))"
proof -
  note m = ring_member [OF assms(1-3)]
  have eqA: "b_next (bcache_buf s ! l) = nxt s (Slot l)"
    and eqB: "b_prev (bcache_buf s ! l) = prv s (Slot l)"
    by (simp_all add: nxt_def prv_def obj_simps)
  let ?s1 = "store (nxt s (Slot l)) (\<lambda>x. x\<lparr>b_prev := prv s (Slot l)\<rparr>) s"
  have s1: "assign (nxt s (Slot l)) (\<lambda>x. x\<lparr>b_prev := prv s (Slot l)\<rparr>) s = Inr ?s1"
    using m(3) by (simp add: assign_ok)
  have l1: "bcache_buf ?s1 ! l = bcache_buf s ! l"
    using m(3,6) by (simp add: buf_store)
  have s2: "assign (prv s (Slot l)) (\<lambda>x. x\<lparr>b_next := nxt s (Slot l)\<rparr>) ?s1 = Inr (detach l s)"
    using m(4) by (simp add: assign_ok detach_def)
  let ?s2 = "detach l s"
  note r2 = detach_rings [OF assms(1-3)]
  have absent: "l \<notin> set (bs[hl := ys @ zs] ! h)"
    by (rule detach_absent [OF assms])
  note hd = ring_head [OF r2 assms(4)]
  let ?f = "\<lambda>x. x\<lparr>dev := d, blockno := n, valid := 0, refcnt := 1,
                     b_prev := Head h, b_next := nxt ?s2 (Head h)\<rparr>"
  let ?s8 = "store (Slot l) ?f ?s2"
  have h8: "bucket_head (store (Slot l) g t) = bucket_head t" for g t
    by (simp add: store_def)
  have eqH: "b_next (bucket_head ?s2 ! h) = nxt ?s2 (Head h)"
    by (simp add: nxt_def obj_simps)
  have s8: "store (Slot l) (\<lambda>x. x\<lparr>b_next := nxt ?s2 (Head h)\<rparr>)
             (store (Slot l) (\<lambda>x. x\<lparr>b_prev := Head h\<rparr>)
               (store (Slot l) (\<lambda>x. x\<lparr>refcnt := 1\<rparr>)
                 (store (Slot l) (\<lambda>x. x\<lparr>valid := 0\<rparr>)
                   (store (Slot l) (\<lambda>x. x\<lparr>blockno := n\<rparr>)
                     (store (Slot l) (\<lambda>x. x\<lparr>dev := d\<rparr>) ?s2))))) = ?s8"
    using m(5) by (simp add: store_store comp_def)
  have s9: "assign (nxt ?s2 (Head h)) (\<lambda>x. x\<lparr>b_prev := Slot l\<rparr>) ?s8
              = Inr (store (nxt ?s2 (Head h)) (\<lambda>x. x\<lparr>b_prev := Slot l\<rparr>) ?s8)"
    using hd(2) by (simp add: assign_ok)
  let ?s10 = "relink h d n l s"
  have s10: "store (Head h) (\<lambda>x. x\<lparr>b_next := Slot l\<rparr>)
               (store (nxt ?s2 (Head h)) (\<lambda>x. x\<lparr>b_prev := Slot l\<rparr>) ?s8) = ?s10"
    by (simp add: relink_def attach_def push_def)
  have "payload (obj (attach h d n l ?s2) (Slot l)) =
          (if Slot l = Slot l
           then payload ((obj ?s2 (Slot l))\<lparr>dev := d, blockno := n, valid := 0, refcnt := 1\<rparr>)
           else payload (obj ?s2 (Slot l)))"
    unfolding attach_def by (rule push_payload [OF r2 assms(4) _ absent]) (simp add: m(5))
  moreover have "payload (obj ?s2 (Slot l)) = payload (obj s (Slot l))"
    by (rule detach_payload [OF assms(1-3)])
  ultimately have lk: "lock (obj ?s10 (Slot l)) = lock (bcache_buf s ! l)"
    by (simp add: relink_def payload_def obj_simps)
  have acq: "acquiresleep p (Slot l) ?s10 =
           (case lock (bcache_buf s ! l) of
              Some q \<Rightarrow> Inl Asleep
            | None \<Rightarrow> Inr (store (Slot l) (\<lambda>x. x\<lparr>lock := Some p\<rparr>) ?s10))"
    using m(5) lk by (simp add: acquiresleep_def load_ok relink_def split: option.splits)
  show ?thesis
    unfolding rebind_def eqA eqB s1 seq_Inr l1
    unfolding eqA eqB s2 seq_Inr Let_def h8 eqH s8
    unfolding s9 seq_Inr s10 acq
    by (simp split: option.splits)
qed

subsection \<open>The scans and the recycling loop\<close>

lemma lookup_dseg:
  assumes "dseg (nxt s) (prv s) p c xs (Head h)" "\<forall>i \<in> set xs. i < NBUF s"
  shows "lookup s h d n c = Some (Inr (map_option Slot (find (matches s d n) xs)))"
  using assms
proof (induction xs arbitrary: p c)
  case Nil
  then show ?case
    by (subst lookup.simps) simp
next
  case (Cons i xs)
  from Cons.prems have c: "c = Slot i" and i: "i < NBUF s"
    and rest: "dseg (nxt s) (prv s) (Slot i) (nxt s (Slot i)) xs (Head h)" by simp_all
  from Cons.prems have "\<forall>i \<in> set xs. i < NBUF s" by simp
  note ih = Cons.IH [OF rest this]
  have d: "deref s (Slot i) = Some (bcache_buf s ! i)"
    using i by (simp add: deref_ok obj_simps)
  have m: "(dev (bcache_buf s ! i) = d \<and> blockno (bcache_buf s ! i) = n) = matches s d n i"
    by (simp add: matches_def)
  have nx: "b_next (bcache_buf s ! i) = nxt s (Slot i)"
    by (simp add: nxt_def obj_simps)
  have "lookup s h d n (Slot i) =
          (if matches s d n i then Some (Inr (Some (Slot i))) else lookup s h d n (nxt s (Slot i)))"
    by (subst lookup.simps) (simp add: d m nx)
  then show ?case
    unfolding c by (simp add: ih)
qed

lemma lookup_ring:
  assumes "rings s bs" "h < NBUCKET"
  shows "lookup s h d n (b_next (bucket_head s ! h)) =
           Some (Inr (map_option Slot (find (matches s d n) (bs ! h))))"
proof -
  have "b_next (bucket_head s ! h) = nxt s (Head h)"
    by (simp add: nxt_def obj_simps)
  moreover from rings_ring [OF assms]
  have "dseg (nxt s) (prv s) (Head h) (nxt s (Head h)) (bs ! h) (Head h)"
    by (simp add: ring_def)
  ultimately show ?thesis
    using rings_bound [OF assms] by (simp add: lookup_dseg)
qed

lemma best_step: "best s k acc \<Longrightarrow> best s (Suc k) (pick s acc k)"
  by (cases acc) (auto simp: best_def pick_def less_Suc_eq)

lemma best_foldl: "best s k (foldl (pick s) None [0..<k])"
proof (induction k)
  case 0
  show ?case by (simp add: best_def)
next
  case (Suc k)
  from best_step [OF Suc] show ?case by simp
qed

lemma scan_None: "scan s = None \<longleftrightarrow> (\<forall>i < NBUF s. refcnt (bcache_buf s ! i) \<noteq> 0)"
proof (cases "scan s")
  case None
  with best_foldl [of s "NBUF s"] show ?thesis
    by (simp add: scan_def best_def)
next
  case (Some l)
  with best_foldl [of s "NBUF s"] have "l < NBUF s" "refcnt (bcache_buf s ! l) = 0"
    by (simp_all add: scan_def best_def)
  with Some show ?thesis by auto
qed

lemma scan_Some:
  assumes "scan s = Some l"
  shows "l < NBUF s" "refcnt (bcache_buf s ! l) = 0"
    "\<And>j. j < NBUF s \<Longrightarrow> refcnt (bcache_buf s ! j) = 0 \<Longrightarrow>
       lu_time (bcache_buf s ! l) \<le> lu_time (bcache_buf s ! j)"
    "\<And>j. j < NBUF s \<Longrightarrow> refcnt (bcache_buf s ! j) = 0 \<Longrightarrow>
       lu_time (bcache_buf s ! j) = lu_time (bcache_buf s ! l) \<Longrightarrow> l \<le> j"
  using best_foldl [of s "NBUF s"] assms by (simp_all add: scan_def best_def)

lemma recycle_Some:
  assumes "scan s = Some l"
  shows "recycle p h d n s = Some (rebind p h d n l s)"
  using assms scan_Some(2) [OF assms] by (subst recycle.simps) simp

lemma recycle_returns:
  assumes "recycle p h d n s = Some y"
  shows "scan s \<noteq> None"
  by (rule recycle.raw_induct [where P = "\<lambda>p h d n s y. scan s \<noteq> None", OF _ assms])
     (fastforce split: option.splits if_splits)

lemma recycle_None: "scan s = None \<Longrightarrow> recycle p h d n s = None"
  using recycle_returns [of p h d n s] by (cases "recycle p h d n s") auto

lemma bget_hit:
  assumes "rings s bs" "find (matches s d n) (bs ! (unat n mod NBUCKET)) = Some i"
  shows "bget p d n s = Some (hit p (Slot i) s)"
  using assms(2) lookup_ring [OF assms(1), of "unat n mod NBUCKET" d n]
  by (simp add: bget_def NBUCKET_def)

lemma bget_miss:
  assumes "rings s bs" "find (matches s d n) (bs ! (unat n mod NBUCKET)) = None"
  shows "bget p d n s = recycle p (unat n mod NBUCKET) d n s"
  using assms(2) lookup_ring [OF assms(1), of "unat n mod NBUCKET" d n]
  by (simp add: bget_def NBUCKET_def)

subsection \<open>The invariant across a recycling\<close>

lemma inv_rings: "cache_inv s bs \<Longrightarrow> rings s bs"
  by (simp add: cache_inv_def)

lemma inv_cover: "cache_inv s bs \<Longrightarrow> i < NBUF s \<Longrightarrow> \<exists>h < NBUCKET. i \<in> set (bs ! h)"
  by (simp add: cache_inv_def)

lemma inv_hash:
  "cache_inv s bs \<Longrightarrow> h < NBUCKET \<Longrightarrow> i \<in> set (bs ! h) \<Longrightarrow>
   unat (blockno (bcache_buf s ! i)) mod NBUCKET = h"
  by (simp add: cache_inv_def)

lemma frame_refl: "frame s s"
  by (simp add: frame_def)

lemma frame_trans: "frame s s' \<Longrightarrow> frame s' s'' \<Longrightarrow> frame s s''"
  by (simp add: frame_def)

lemma frame_rings: "frame s s' \<Longrightarrow> rings s bs \<Longrightarrow> rings s' bs"
  by (simp add: frame_def rings_def)

lemma frame_inv: "frame s s' \<Longrightarrow> cache_inv s bs \<Longrightarrow> cache_inv s' bs"
  by (simp add: cache_inv_def frame_rings) (simp add: frame_def)

lemma frame_store:
  assumes "\<And>x. b_next (f x) = b_next x \<and> b_prev (f x) = b_prev x \<and>
                dev (f x) = dev x \<and> blockno (f x) = blockno x"
  shows "frame s (store r f s)"
proof -
  have "nxt (store r f s) = nxt s" "prv (store r f s) = prv s"
    by (rule ext, simp add: nxt_def prv_def obj_store assms)+
  moreover have "dev (bcache_buf (store r f s) ! i) = dev (bcache_buf s ! i)"
    "blockno (bcache_buf (store r f s) ! i) = blockno (bcache_buf s ! i)" for i
    using obj_store [of r f s "Slot i"] by (auto simp: obj_simps assms)
  ultimately show ?thesis
    by (simp add: frame_def)
qed

lemma frame_fields:
  "bcache_buf s' = bcache_buf s \<Longrightarrow> bucket_head s' = bucket_head s \<Longrightarrow> frame s s'"
  by (simp add: frame_def NBUF_def nxt_def prv_def obj_def fun_eq_iff split: ref.splits)

lemma remove1_split: "distinct (ys @ l # zs) \<Longrightarrow> remove1 l (ys @ l # zs) = ys @ zs"
  by (simp add: remove1_append)

lemma moved_eq:
  assumes "rings s bs" "hl < NBUCKET" "bs ! hl = ys @ l # zs" "h < NBUCKET"
  shows "moved bs l h = (bs[hl := ys @ zs])[h := l # bs[hl := ys @ zs] ! h]"
proof -
  from rings_len [OF assms(1)] have len: "length bs = NBUCKET" ..
  have d: "distinct (ys @ l # zs)"
    using rings_distinct [OF assms(1,2)] by (simp add: assms(3))
  have "map (remove1 l) bs = bs[hl := ys @ zs]"
  proof (rule nth_equalityI)
    fix k assume "k < length (map (remove1 l) bs)"
    then have k: "k < NBUCKET" by (simp add: len)
    show "map (remove1 l) bs ! k = bs[hl := ys @ zs] ! k"
    proof (cases "k = hl")
      case True
      with k len d show ?thesis
        by (simp add: assms(3) remove1_split)
    next
      case False
      have "l \<in> set (bs ! hl)" by (simp add: assms(3))
      from rings_disjoint [OF assms(1,2) k _ this] False have "l \<notin> set (bs ! k)"
        by auto
      with False k len show ?thesis
        by (simp add: remove1_idem)
    qed
  qed simp
  moreover from this have "remove1 l (bs ! h) = bs[hl := ys @ zs] ! h"
    using assms(4) len by (metis nth_map)
  ultimately show ?thesis
    by (simp add: moved_def)
qed

lemma moved_set:
  assumes "rings s bs" "k < NBUCKET" "h < NBUCKET"
  shows "set (moved bs l h ! k) = (if k = h then insert l (set (bs ! k) - {l}) else set (bs ! k) - {l})"
  using rings_len [OF assms(1)] rings_distinct [OF assms(1,2)] assms(2,3)
  by (auto simp: moved_def nth_list_update)

lemma relink_rings:
  assumes "cache_inv s bs" "l < NBUF s" "h < NBUCKET"
  shows "rings (relink h d n l s) (moved bs l h)"
proof -
  note r = inv_rings [OF assms(1)]
  from inv_cover [OF assms(1,2)] obtain hl where hl: "hl < NBUCKET" "l \<in> set (bs ! hl)"
    by blast
  from split_list [OF hl(2)] obtain ys zs where sp: "bs ! hl = ys @ l # zs"
    by blast
  have "rings (attach h d n l (detach l s)) ((bs[hl := ys @ zs])[h := l # bs[hl := ys @ zs] ! h])"
    unfolding attach_def
  proof (rule push_rings [OF detach_rings [OF r hl(1) sp] assms(3)])
    show "l < NBUF (detach l s)" using assms(2) by simp
    show "\<forall>k<NBUCKET. l \<notin> set (bs[hl := ys @ zs] ! k)"
      using detach_absent [OF r hl(1) sp] by simp
  qed
  then show ?thesis
    by (simp add: relink_def moved_eq [OF r hl(1) sp assms(3)])
qed

lemma relink_payload:
  assumes "cache_inv s bs" "l < NBUF s" "h < NBUCKET"
  shows "payload (obj (relink h d n l s) r) =
           (if r = Slot l
            then (0, d, n, lock (obj s r), 1, data (obj s r), lu_time (obj s r))
            else payload (obj s r))"
proof -
  note r = inv_rings [OF assms(1)]
  from inv_cover [OF assms(1,2)] obtain hl where hl: "hl < NBUCKET" "l \<in> set (bs ! hl)"
    by blast
  from split_list [OF hl(2)] obtain ys zs where sp: "bs ! hl = ys @ l # zs"
    by blast
  have "payload (obj (relink h d n l s) r) =
          (if r = Slot l
           then payload ((obj (detach l s) r)\<lparr>dev := d, blockno := n, valid := 0, refcnt := 1\<rparr>)
           else payload (obj (detach l s) r))"
    unfolding relink_def attach_def
    by (rule push_payload [OF detach_rings [OF r hl(1) sp] assms(3) _ detach_absent [OF r hl(1) sp assms(3)]])
       (simp add: assms(2))
  moreover have "payload (obj (detach l s) r) = payload (obj s r)"
    by (rule detach_payload [OF r hl(1) sp])
  ultimately show ?thesis
    by (auto simp: payload_def)
qed

lemma relink_misc [simp]:
  "NBUF (relink h d n l s) = NBUF s"
  "length (bucket_head (relink h d n l s)) = length (bucket_head s)"
  "ticks (relink h d n l s) = ticks s" "disk (relink h d n l s) = disk s"
  "io (relink h d n l s) = io s" "ok (relink h d n l s) r = ok s r"
  by (simp_all add: relink_def)

lemma relink_buf:
  assumes "cache_inv s bs" "l < NBUF s" "h < NBUCKET"
  shows "payload (bcache_buf (relink h d n l s) ! i) =
           (if i = l
            then (0, d, n, lock (bcache_buf s ! l), 1, data (bcache_buf s ! l),
                  lu_time (bcache_buf s ! l))
            else payload (bcache_buf s ! i))"
  using relink_payload [OF assms, of d n "Slot i"] by (simp add: obj_simps)

lemma relink_inv:
  assumes "cache_inv s bs" "l < NBUF s" "h = unat n mod NBUCKET"
  shows "cache_inv (relink h d n l s) (moved bs l h)"
proof -
  have h: "h < NBUCKET" by (simp add: assms(3) NBUCKET_def)
  note r = inv_rings [OF assms(1)]
  note ms = moved_set [OF r _ h]
  note pl = relink_buf [OF assms(1,2) h]
  show ?thesis
    unfolding cache_inv_def
  proof (intro conjI allI impI ballI)
    show "rings (relink h d n l s) (moved bs l h)"
      by (rule relink_rings [OF assms(1,2) h])
  next
    fix i assume "i < NBUF (relink h d n l s)"
    then have i: "i < NBUF s" by simp
    show "\<exists>k<NBUCKET. i \<in> set (moved bs l h ! k)"
    proof (cases "i = l")
      case True
      with h show ?thesis by (auto simp: ms)
    next
      case False
      from inv_cover [OF assms(1) i] obtain k where "k < NBUCKET" "i \<in> set (bs ! k)"
        by blast
      with False show ?thesis by (auto simp: ms)
    qed
  next
    fix k i assume k: "k < NBUCKET" and i: "i \<in> set (moved bs l h ! k)"
    show "unat (blockno (bcache_buf (relink h d n l s) ! i)) mod NBUCKET = k"
    proof (cases "i = l")
      case True
      with i k have "k = h" by (auto simp: ms split: if_splits)
      moreover have "blockno (bcache_buf (relink h d n l s) ! l) = n"
        using pl [of d n l] by (simp add: payload_def)
      ultimately show ?thesis using True assms(3) by simp
    next
      case False
      with i k have "i \<in> set (bs ! k)" by (auto simp: ms split: if_splits)
      from inv_hash [OF assms(1) k this] pl [of d n i] False show ?thesis
        by (simp add: payload_def)
    qed
  qed
qed

subsection \<open>binit establishes the invariant\<close>

lemma init_bucket_apply:
  "init_bucket i s = store (Head i) (\<lambda>x. x\<lparr>b_prev := Head i, b_next := Head i\<rparr>) s"
  by (simp add: init_bucket_def)

lemma init_bucket_Suc:
  "fold init_bucket [0..<Suc k] s = init_bucket k (fold init_bucket [0..<k] s)"
  by simp

lemma init_bucket_misc [simp]:
  "NBUF (fold init_bucket [0..<k] s) = NBUF s"
  "length (bucket_head (fold init_bucket [0..<k] s)) = length (bucket_head s)"
  "ticks (fold init_bucket [0..<k] s) = ticks s"
  "disk (fold init_bucket [0..<k] s) = disk s"
  "io (fold init_bucket [0..<k] s) = io s"
  "ok (fold init_bucket [0..<k] s) r = ok s r"
  by (induction k) (simp_all add: init_bucket_apply)

lemma init_bucket_obj:
  "obj (fold init_bucket [0..<k] s) r =
     (case r of
        Head j \<Rightarrow> if j < k \<and> j < length (bucket_head s)
                  then (obj s r)\<lparr>b_prev := Head j, b_next := Head j\<rparr> else obj s r
      | _ \<Rightarrow> obj s r)"
proof (induction k)
  case 0
  show ?case by (simp split: ref.splits)
next
  case (Suc k)
  define t where "t = fold init_bucket [0..<k] s"
  have "fold init_bucket [0..<Suc k] s = init_bucket k t"
    by (simp add: t_def)
  also have "\<dots> = store (Head k) (\<lambda>x. x\<lparr>b_prev := Head k, b_next := Head k\<rparr>) t"
    by (rule init_bucket_apply)
  finally have "obj (fold init_bucket [0..<Suc k] s) r =
      (if r = Head k \<and> ok t (Head k)
       then (obj t r)\<lparr>b_prev := Head k, b_next := Head k\<rparr> else obj t r)"
    by (simp add: obj_store)
  moreover have "ok t (Head k) = ok s (Head k)"
    by (simp add: t_def)
  moreover note Suc [folded t_def]
  ultimately show ?case
    by (auto split: ref.splits simp: less_Suc_eq)
qed

lemma init_bucket_rings:
  assumes "length (bucket_head s) = NBUCKET"
  shows "rings (fold init_bucket [0..<NBUCKET] s) (replicate NBUCKET [])"
  using assms
  by (simp add: rings_def ring_def nxt_def prv_def init_bucket_obj)

lemma init_bucket_payload:
  "payload (obj (fold init_bucket [0..<k] s) r) = payload (obj s r)"
  by (simp add: init_bucket_obj payload_def split: ref.splits)

lemma init_buf_push:
  assumes "rings s bs" "i < NBUF s" "\<forall>k < NBUCKET. i \<notin> set (bs ! k)"
  shows "init_buf i s =
           Inr (store (Slot i) (\<lambda>x. x\<lparr>lu_time := - 1\<rparr>) (push 0 i (\<lambda>x. x\<lparr>lock := None\<rparr>) s))"
proof -
  have z: "0 < NBUCKET" by (simp add: NBUCKET_def)
  note hd = ring_head [OF assms(1) z]
  have h8: "bucket_head (store (Slot i) g t) = bucket_head t" for g t
    by (simp add: store_def)
  have eqH: "b_next (bucket_head s ! 0) = nxt s (Head 0)"
    by (simp add: nxt_def obj_simps)
  let ?s3 = "store (Slot i) (\<lambda>x. (x\<lparr>lock := None\<rparr>)\<lparr>b_prev := Head 0, b_next := nxt s (Head 0)\<rparr>) s"
  have fg: "(\<lambda>x. x\<lparr>lock := None\<rparr>) \<circ> ((\<lambda>x. x\<lparr>b_prev := Head 0\<rparr>) \<circ> (\<lambda>x. x\<lparr>b_next := nxt s (Head 0)\<rparr>))
              = (\<lambda>x. (x\<lparr>lock := None\<rparr>)\<lparr>b_prev := Head 0, b_next := nxt s (Head 0)\<rparr>)"
    by (rule ext) simp
  have s3: "store (Slot i) (\<lambda>x. x\<lparr>lock := None\<rparr>)
              (store (Slot i) (\<lambda>x. x\<lparr>b_prev := Head 0\<rparr>)
                (store (Slot i) (\<lambda>x. x\<lparr>b_next := nxt s (Head 0)\<rparr>) s)) = ?s3"
    using assms(2) by (simp only: store_store ok_store ok_simps fg)
  have s4: "assign (nxt s (Head 0)) (\<lambda>x. x\<lparr>b_prev := Slot i\<rparr>) ?s3
              = Inr (store (nxt s (Head 0)) (\<lambda>x. x\<lparr>b_prev := Slot i\<rparr>) ?s3)"
    using hd(2) by (simp add: assign_ok)
  show ?thesis
    unfolding init_buf_def Let_def eqH h8 s3
    unfolding s4 seq_Inr
    by (simp add: push_def)
qed

lemma initial_nth: "h < NBUCKET \<Longrightarrow> initial k ! h = (if h = 0 then rev [0..<k] else [])"
  by (simp add: initial_def nth_list_update)

lemma initial_Suc: "(initial k)[0 := k # initial k ! 0] = initial (Suc k)"
  by (simp add: initial_def NBUCKET_def)

lemma fresh_step:
  assumes "fresh s0 k s" "k < NBUF s0"
  shows "\<exists>s'. init_buf k s = Inr s' \<and> fresh s0 (Suc k) s'"
proof -
  from assms(1) have r: "rings s (initial k)" and n: "NBUF s = NBUF s0"
    by (simp_all add: fresh_def)
  have z: "0 < NBUCKET" by (simp add: NBUCKET_def)
  have k: "k < NBUF s" using assms(2) n by simp
  have absent: "\<forall>h < NBUCKET. k \<notin> set (initial k ! h)"
    by (simp add: initial_nth)
  let ?p = "push 0 k (\<lambda>x. x\<lparr>lock := None\<rparr>) s"
  let ?s' = "store (Slot k) (\<lambda>x. x\<lparr>lu_time := - 1\<rparr>) ?p"
  have eq: "init_buf k s = Inr ?s'"
    by (rule init_buf_push [OF r k absent])
  have rp: "rings ?p (initial (Suc k))"
    using push_rings [OF r z k absent] by (simp add: initial_Suc)
  have r': "rings ?s' (initial (Suc k))"
    by (rule frame_rings [OF frame_store rp]) simp
  have pl: "payload (bcache_buf ?p ! i) =
              (if i = k then payload ((bcache_buf s ! i)\<lparr>lock := None\<rparr>) else payload (bcache_buf s ! i))" for i
    using push_payload [OF r z k, of "\<lambda>x. x\<lparr>lock := None\<rparr>" "Slot i"] absent z
    by (simp add: obj_simps)
  have b': "bcache_buf ?s' ! i = (if i = k then (bcache_buf ?p ! i)\<lparr>lu_time := - 1\<rparr> else bcache_buf ?p ! i)" for i
    using obj_store [of "Slot k" _ ?p "Slot i"] k by (simp add: obj_simps)
  have "fresh s0 (Suc k) ?s'"
    unfolding fresh_def
  proof (intro conjI allI impI)
    fix i assume "i < NBUF s0"
    with assms(1) pl [of i]
    show "valid (bcache_buf ?s' ! i) = valid (bcache_buf s0 ! i)"
      "dev (bcache_buf ?s' ! i) = dev (bcache_buf s0 ! i)"
      "blockno (bcache_buf ?s' ! i) = blockno (bcache_buf s0 ! i)"
      "refcnt (bcache_buf ?s' ! i) = refcnt (bcache_buf s0 ! i)"
      "data (bcache_buf ?s' ! i) = data (bcache_buf s0 ! i)"
      by (auto simp: fresh_def b' payload_def split: if_splits)
  next
    fix i assume "i < Suc k"
    with assms(1) pl [of i]
    show "lu_time (bcache_buf ?s' ! i) = - 1" "lock (bcache_buf ?s' ! i) = None"
      by (auto simp: fresh_def b' payload_def less_Suc_eq split: if_splits)
  qed (use assms(1) r' in \<open>simp_all add: fresh_def\<close>)
  with eq show ?thesis by blast
qed

lemma fresh_loop:
  assumes "fresh s0 k s" "k \<le> NBUF s0"
  shows "\<exists>s'. for_each init_buf [k..<NBUF s0] s = Inr s' \<and> fresh s0 (NBUF s0) s'"
  using assms
proof (induction "NBUF s0 - k" arbitrary: k s)
  case 0
  then show ?case by simp
next
  case (Suc m)
  then have k: "k < NBUF s0" by simp
  from fresh_step [OF Suc.prems(1) k] obtain s1
    where s1: "init_buf k s = Inr s1" "fresh s0 (Suc k) s1" by blast
  from Suc.hyps(2) have "m = NBUF s0 - Suc k" by simp
  from Suc.hyps(1) [OF this s1(2)] k obtain s'
    where "for_each init_buf [Suc k..<NBUF s0] s1 = Inr s'" "fresh s0 (NBUF s0) s'"
    by auto
  with s1(1) k show ?case
    by (simp add: upt_conv_Cons)
qed

lemma binit_fresh:
  assumes "length (bucket_head s) = NBUCKET"
  shows "\<exists>s'. binit s = Inr s' \<and> fresh s (NBUF s) s'"
proof -
  let ?s0 = "fold init_bucket [0..<NBUCKET] s"
  have "initial 0 = replicate NBUCKET []"
    by (rule nth_equalityI) (auto simp: initial_def nth_list_update)
  then have "fresh ?s0 0 ?s0"
    using init_bucket_rings [OF assms] by (simp add: fresh_def)
  from fresh_loop [OF this] obtain s'
    where s': "for_each init_buf [0..<NBUF s] ?s0 = Inr s'" "fresh ?s0 (NBUF s) s'"
    by auto
  have "bcache_buf ?s0 ! i = bcache_buf s ! i" for i
    using init_bucket_obj [of NBUCKET s "Slot i"] by (simp add: obj_simps)
  with s'(2) have "fresh s (NBUF s) s'"
    by (simp add: fresh_def)
  with s'(1) show ?thesis
    by (simp add: binit_def)
qed

lemma fresh_inv:
  assumes "fresh s0 (NBUF s0) s" "\<forall>i < NBUF s0. unat (blockno (bcache_buf s0 ! i)) mod NBUCKET = 0"
  shows "cache_inv s (initial (NBUF s0))"
  using assms
  by (auto simp: cache_inv_def fresh_def initial_nth NBUCKET_def intro!: exI [of _ 0])

subsection \<open>The operations keep the invariant\<close>

lemma hit_eq:
  assumes "i < NBUF s"
  shows "hit p (Slot i) s =
           (case lock (bcache_buf s ! i) of
              Some q \<Rightarrow> Inl Asleep
            | None \<Rightarrow> Inr (Slot i, taken p i s))"
  using assms
  by (simp add: hit_def assign_ok acquiresleep_def load_ok buf_store obj_simps taken_def
           split: option.splits)

lemma find_in: "find P xs = Some i \<Longrightarrow> i \<in> set xs \<and> P i"
  by (induction xs) (auto split: if_splits)

lemma bget_hit_eq:
  assumes "cache_inv s bs" "find (matches s d n) (bs ! (unat n mod NBUCKET)) = Some i"
  shows "bget p d n s =
           (case lock (bcache_buf s ! i) of
              Some q \<Rightarrow> Some (Inl Asleep)
            | None \<Rightarrow> Some (Inr (Slot i, taken p i s)))"
proof -
  have h: "unat n mod NBUCKET < NBUCKET" by (simp add: NBUCKET_def)
  from find_in [OF assms(2)] rings_bound [OF inv_rings [OF assms(1)] h] have "i < NBUF s"
    by simp
  then show ?thesis
    by (simp add: bget_hit [OF inv_rings [OF assms(1)] assms(2)] hit_eq split: option.splits)
qed

lemma bget_miss_eq:
  assumes "cache_inv s bs" "find (matches s d n) (bs ! (unat n mod NBUCKET)) = None"
  shows "bget p d n s =
           (case scan s of
              None \<Rightarrow> None
            | Some l \<Rightarrow>
                (case lock (bcache_buf s ! l) of
                   Some q \<Rightarrow> Some (Inl Asleep)
                 | None \<Rightarrow> Some (Inr (Slot l, recycled p d n l s))))"
proof (cases "scan s")
  case None
  then show ?thesis
    by (simp add: bget_miss [OF inv_rings [OF assms(1)] assms(2)] recycle_None)
next
  case (Some l)
  note r = inv_rings [OF assms(1)]
  have h: "unat n mod NBUCKET < NBUCKET" by (simp add: NBUCKET_def)
  from inv_cover [OF assms(1) scan_Some(1) [OF Some]]
  obtain hl where hl: "hl < NBUCKET" "l \<in> set (bs ! hl)" by blast
  from split_list [OF hl(2)] obtain ys zs where sp: "bs ! hl = ys @ l # zs" by blast
  show ?thesis
    by (simp add: bget_miss [OF r assms(2)] Some recycle_Some [OF Some]
          rebind_relink [OF r hl(1) sp h] recycled_def split: option.splits)
qed

lemma taken_frame: "frame s (taken p i s)"
  unfolding taken_def by (rule frame_trans [OF frame_store frame_store]) simp_all

lemma recycled_inv:
  assumes "cache_inv s bs" "l < NBUF s"
  shows "cache_inv (recycled p d n l s) (moved bs l (unat n mod NBUCKET))"
  unfolding recycled_def
  by (rule frame_inv [OF frame_store relink_inv [OF assms refl]]) simp

lemma bget_inv:
  assumes "cache_inv s bs" "bget p d n s = Some (Inr (b, s1))"
  shows "\<exists>bs1 i. cache_inv s1 bs1 \<and> b = Slot i \<and> i < NBUF s1"
proof (cases "find (matches s d n) (bs ! (unat n mod NBUCKET))")
  case (Some i)
  have h: "unat n mod NBUCKET < NBUCKET" by (simp add: NBUCKET_def)
  from find_in [OF Some] rings_bound [OF inv_rings [OF assms(1)] h] have i: "i < NBUF s"
    by simp
  from assms(2) have "b = Slot i" "s1 = taken p i s"
    by (auto simp: bget_hit_eq [OF assms(1) Some] split: option.splits)
  moreover have "cache_inv (taken p i s) bs"
    by (rule frame_inv [OF taken_frame assms(1)])
  moreover have "NBUF (taken p i s) = NBUF s"
    by (simp add: taken_def)
  ultimately show ?thesis using i by auto
next
  case None
  from assms(2) obtain l where l: "scan s = Some l" "b = Slot l" "s1 = recycled p d n l s"
    by (auto simp: bget_miss_eq [OF assms(1) None] split: option.splits)
  moreover have "cache_inv (recycled p d n l s) (moved bs l (unat n mod NBUCKET))"
    by (rule recycled_inv [OF assms(1) scan_Some(1) [OF l(1)]])
  moreover have "NBUF (recycled p d n l s) = NBUF s"
    by (simp add: recycled_def)
  ultimately show ?thesis using scan_Some(1) [OF l(1)] by auto
qed

lemma virtio_disk_rw_eq:
  assumes "ok s b"
  shows "virtio_disk_rw b w s =
     Inr (if w
          then s\<lparr>io := io s @ [(w, dev (obj s b), blockno (obj s b))],
                 disk := (disk s)((dev (obj s b), blockno (obj s b)) := data (obj s b))\<rparr>
          else store b (\<lambda>x. x\<lparr>data := disk s (dev (obj s b), blockno (obj s b))\<rparr>)
                 (s\<lparr>io := io s @ [(w, dev (obj s b), blockno (obj s b))]\<rparr>))"
  using assms by (simp add: virtio_disk_rw_def load_ok Let_def)

lemma frame_io: "frame s (s\<lparr>io := x\<rparr>)"
  by (rule frame_fields) simp_all

lemma frame_disk: "frame s (s\<lparr>disk := x\<rparr>)"
  by (rule frame_fields) simp_all

lemma frame_ticks: "frame s (s\<lparr>ticks := x\<rparr>)"
  by (rule frame_fields) simp_all

lemma virtio_disk_rw_frame:
  assumes "virtio_disk_rw b w s = Inr s'"
  shows "frame s s'"
proof (cases "ok s b")
  case True
  show ?thesis
  proof (cases w)
    case w: True
    with assms True have "s' = (s\<lparr>io := io s @ [(w, dev (obj s b), blockno (obj s b))]\<rparr>)
      \<lparr>disk := (disk s)((dev (obj s b), blockno (obj s b)) := data (obj s b))\<rparr>"
      by (simp add: virtio_disk_rw_eq)
    then show ?thesis
      using frame_trans [OF frame_io frame_disk] by simp
  next
    case False
    with assms True have "s' = store b (\<lambda>x. x\<lparr>data := disk s (dev (obj s b), blockno (obj s b))\<rparr>)
                 (s\<lparr>io := io s @ [(w, dev (obj s b), blockno (obj s b))]\<rparr>)"
      by (simp add: virtio_disk_rw_eq)
    then show ?thesis
      using frame_trans [OF frame_io frame_store] by simp
  qed
next
  case False
  with assms show ?thesis
    by (simp add: virtio_disk_rw_def load_def deref_not_ok)
qed

lemma bread_eq:
  assumes "bread p d n s = Some (Inr (b, s'))"
  shows "\<exists>s1. bget p d n s = Some (Inr (b, s1)) \<and> ok s1 b \<and>
           (if valid (obj s1 b) = 0
            then \<exists>s2. virtio_disk_rw b False s1 = Inr s2 \<and> s' = store b (\<lambda>y. y\<lparr>valid := 1\<rparr>) s2
            else s' = s1)"
proof -
  from assms obtain b1 s1 where g: "bget p d n s = Some (Inr (b1, s1))"
    by (auto simp: bread_def split: option.splits sum.splits)
  with assms have r: "seq (load s1 b1) (\<lambda>x.
            if valid x = 0 then
              seq (virtio_disk_rw b1 False s1) (\<lambda>s2.
                Inr (b1, store b1 (\<lambda>y. y\<lparr>valid := 1\<rparr>) s2))
            else Inr (b1, s1)) = Inr (b, s')"
    by (simp add: bread_def)
  have ok: "ok s1 b1"
  proof (rule ccontr)
    assume "\<not> ok s1 b1"
    with r show False by (simp add: load_def deref_not_ok)
  qed
  show ?thesis
  proof (cases "valid (obj s1 b1) = 0")
    case True
    with r ok show ?thesis
      using g by (cases "virtio_disk_rw b1 False s1") (auto simp: load_ok)
  next
    case False
    with r ok show ?thesis
      using g by (auto simp: load_ok)
  qed
qed

lemma bread_inv:
  assumes "cache_inv s bs" "bread p d n s = Some (Inr (b, s'))"
  shows "\<exists>bs'. cache_inv s' bs'"
proof -
  from bread_eq [OF assms(2)] obtain s1 where g: "bget p d n s = Some (Inr (b, s1))"
    and c: "if valid (obj s1 b) = 0
            then \<exists>s2. virtio_disk_rw b False s1 = Inr s2 \<and> s' = store b (\<lambda>y. y\<lparr>valid := 1\<rparr>) s2
            else s' = s1" by blast
  from bget_inv [OF assms(1) g] obtain bs1 where i: "cache_inv s1 bs1" by blast
  show ?thesis
  proof (cases "valid (obj s1 b) = 0")
    case True
    with c obtain s2 where s2: "virtio_disk_rw b False s1 = Inr s2"
      and s': "s' = store b (\<lambda>y. y\<lparr>valid := 1\<rparr>) s2" by auto
    have "frame s1 s'"
      unfolding s' by (rule frame_trans [OF virtio_disk_rw_frame [OF s2] frame_store]) simp
    from frame_inv [OF this i] show ?thesis ..
  next
    case False
    with c i show ?thesis by auto
  qed
qed

lemma bwrite_frame:
  assumes "bwrite p b s = Inr s'"
  shows "frame s s'"
proof (cases "ok s b")
  case True
  with assms have "virtio_disk_rw b True s = Inr s'"
    by (simp add: bwrite_def load_ok split: if_splits)
  then show ?thesis by (rule virtio_disk_rw_frame)
next
  case False
  with assms show ?thesis
    by (simp add: bwrite_def load_def deref_not_ok)
qed

lemma brelse_eq:
  assumes "brelse p b s = Inr s'"
  shows "ok s b \<and> lock (obj s b) = Some p \<and>
         s' = store b (\<lambda>x. x\<lparr>lock := None, refcnt := refcnt x - 1, lu_time := int (ticks s)\<rparr>) s"
proof (cases "ok s b")
  case True
  have fg: "(\<lambda>x. x\<lparr>lu_time := int (ticks s)\<rparr>) \<circ> ((\<lambda>x. x\<lparr>refcnt := refcnt x - 1\<rparr>) \<circ> (\<lambda>x. x\<lparr>lock := None\<rparr>))
          = (\<lambda>x. x\<lparr>lock := None, refcnt := refcnt x - 1, lu_time := int (ticks s)\<rparr>)"
    by (rule ext) simp
  have "store b (\<lambda>x. x\<lparr>lu_time := int (ticks s)\<rparr>)
          (store b (\<lambda>x. x\<lparr>refcnt := refcnt x - 1\<rparr>) (store b (\<lambda>x. x\<lparr>lock := None\<rparr>) s))
        = store b (\<lambda>x. x\<lparr>lock := None, refcnt := refcnt x - 1, lu_time := int (ticks s)\<rparr>) s"
    using True by (simp only: store_store ok_store fg)
  with assms True show ?thesis
    by (simp add: brelse_def load_ok holdingsleep_def releasesleep_def Let_def split: if_splits)
next
  case False
  with assms show ?thesis
    by (simp add: brelse_def load_def deref_not_ok)
qed

lemma brelse_frame: "brelse p b s = Inr s' \<Longrightarrow> frame s s'"
  using brelse_eq [of p b s s'] by (auto intro!: frame_store)

lemma bpin_eq: "bpin b s = Inr s' \<Longrightarrow> ok s b \<and> s' = store b (\<lambda>x. x\<lparr>refcnt := refcnt x + 1\<rparr>) s"
  by (cases "ok s b") (simp_all add: bpin_def assign_ok assign_not_ok)

lemma bunpin_eq: "bunpin b s = Inr s' \<Longrightarrow> ok s b \<and> s' = store b (\<lambda>x. x\<lparr>refcnt := refcnt x - 1\<rparr>) s"
  by (cases "ok s b") (simp_all add: bunpin_def assign_ok assign_not_ok)

lemma bpin_frame: "bpin b s = Inr s' \<Longrightarrow> frame s s'"
  using bpin_eq [of b s s'] by (auto intro!: frame_store)

lemma bunpin_frame: "bunpin b s = Inr s' \<Longrightarrow> frame s s'"
  using bunpin_eq [of b s s'] by (auto intro!: frame_store)

lemma boot_inv:
  assumes "binit (boot nbuf dsk) = Inr s"
  shows "cache_inv s (initial nbuf)" "NBUF s = nbuf"
    "\<forall>i < nbuf. payload (bcache_buf s ! i) = (0, 0, 0, None, 0, [], - 1)"
    "ticks s = 0" "disk s = dsk" "io s = []"
proof -
  let ?b = "boot nbuf dsk"
  have n: "NBUF ?b = nbuf" by (simp add: boot_def NBUF_def)
  have "length (bucket_head ?b) = NBUCKET" by (simp add: boot_def)
  from binit_fresh [OF this] assms have f: "fresh ?b nbuf s"
    by (auto simp: n)
  have z: "bcache_buf ?b ! i = zero_buf" if "i < nbuf" for i
    using that by (simp add: boot_def)
  show "cache_inv s (initial nbuf)"
    using fresh_inv [of ?b s] f z by (simp add: n zero_buf_def)
  show "NBUF s = nbuf" "ticks s = 0" "disk s = dsk" "io s = []"
    using f by (simp_all add: fresh_def n) (simp_all add: boot_def)
  show "\<forall>i < nbuf. payload (bcache_buf s ! i) = (0, 0, 0, None, 0, [], - 1)"
    using f z by (simp add: fresh_def n payload_def zero_buf_def)
qed

lemma reachable_inv: "reachable s \<Longrightarrow> \<exists>bs. cache_inv s bs"
proof (induction rule: reachable.induct)
  case (boot nbuf dsk s)
  from boot_inv(1) [OF this] show ?case ..
next
  case (tick s t)
  then show ?case by (blast intro: frame_inv [OF frame_ticks])
next
  case (bread s p d n b s')
  then show ?case by (blast dest: bread_inv)
next
  case (bwrite s p b s')
  then show ?case by (blast intro: frame_inv [OF bwrite_frame])
next
  case (brelse s p b s')
  then show ?case by (blast intro: frame_inv [OF brelse_frame])
next
  case (bpin s b s')
  then show ?case by (blast intro: frame_inv [OF bpin_frame])
next
  case (bunpin s b s')
  then show ?case by (blast intro: frame_inv [OF bunpin_frame])
qed

subsection \<open>One buffer for each cached block\<close>

lemma uniqD: "uniq s bs \<Longrightarrow> h < NBUCKET \<Longrightarrow> i \<in> set (bs ! h) \<Longrightarrow> cached s i \<Longrightarrow> first_match s (bs ! h) i"
  by (simp add: uniq_def)

lemma frame_matches: "frame s s' \<Longrightarrow> matches s' d n i = matches s d n i"
  by (simp add: frame_def matches_def)

lemma frame_first_match: "frame s s' \<Longrightarrow> first_match s' xs i = first_match s xs i"
proof -
  assume f: "frame s s'"
  then have "matches s' = matches s"
    by (simp add: fun_eq_iff frame_matches)
  with f show ?thesis
    by (simp add: first_match_def frame_def)
qed

lemma uniq_frame:
  assumes "frame s s'" "uniq s bs"
    and "\<And>h i. h < NBUCKET \<Longrightarrow> i \<in> set (bs ! h) \<Longrightarrow> cached s' i \<Longrightarrow>
           cached s i \<or> first_match s (bs ! h) i"
  shows "uniq s' bs"
  unfolding uniq_def
proof (intro allI impI ballI)
  fix h i assume h: "h < NBUCKET" "i \<in> set (bs ! h)" "cached s' i"
  from assms(3) [OF h] uniqD [OF assms(2) h(1,2)] have "first_match s (bs ! h) i"
    by blast
  then show "first_match s' (bs ! h) i"
    by (simp add: frame_first_match [OF assms(1)])
qed

lemma find_remove1:
  "find P xs = Some i \<Longrightarrow> i \<noteq> l \<Longrightarrow> find P (remove1 l xs) = Some i"
  by (induction xs) (auto split: if_splits)

lemma find_agree: "(\<And>x. x \<in> set xs \<Longrightarrow> P x = Q x) \<Longrightarrow> find P xs = find Q xs"
  by (induction xs) auto

lemma find_None_D: "find P xs = None \<Longrightarrow> x \<in> set xs \<Longrightarrow> \<not> P x"
  by (induction xs) (auto split: if_splits)

lemma moved_nth:
  assumes "rings s bs" "k < NBUCKET"
  shows "moved bs l h ! k = (if k = h then l # remove1 l (bs ! k) else remove1 l (bs ! k))"
  using rings_len [OF assms(1)] assms(2) by (simp add: moved_def nth_list_update)

lemma recycled_buf:
  assumes "cache_inv s bs" "l < NBUF s"
  shows "payload (bcache_buf (recycled p d n l s) ! i) =
           (if i = l
            then (0, d, n, Some p, 1, data (bcache_buf s ! l), lu_time (bcache_buf s ! l))
            else payload (bcache_buf s ! i))"
proof -
  have h: "unat n mod NBUCKET < NBUCKET" by (simp add: NBUCKET_def)
  let ?t = "relink (unat n mod NBUCKET) d n l s"
  have "bcache_buf (recycled p d n l s) ! i =
          (if i = l then (bcache_buf ?t ! i)\<lparr>lock := Some p\<rparr> else bcache_buf ?t ! i)"
    using assms(2) by (auto simp: recycled_def buf_store)
  with relink_buf [OF assms h, of d n i] show ?thesis
    by (auto simp: payload_def)
qed

lemma recycled_uniq:
  assumes "cache_inv s bs" "uniq s bs" "l < NBUF s"
    and miss: "find (matches s d n) (bs ! (unat n mod NBUCKET)) = None"
  shows "uniq (recycled p d n l s) (moved bs l (unat n mod NBUCKET))"
  unfolding uniq_def
proof (intro allI impI ballI)
  let ?h = "unat n mod NBUCKET" and ?s = "recycled p d n l s"
  have h: "?h < NBUCKET" by (simp add: NBUCKET_def)
  note r = inv_rings [OF assms(1)]
  note pl = recycled_buf [OF assms(1,3), of p d n]
  fix k i assume k: "k < NBUCKET" and i: "i \<in> set (moved bs l ?h ! k)" and c: "cached ?s i"
  note mn = moved_nth [OF r k, of l ?h]
  show "first_match ?s (moved bs l ?h ! k) i"
  proof (cases "i = l")
    case True
    with i k have kh: "k = ?h"
      by (auto simp: moved_set [OF r k h] split: if_splits)
    have "moved bs l ?h ! k = l # remove1 l (bs ! k)"
      using mn kh by simp
    then show ?thesis
      unfolding True by (simp add: first_match_def matches_def)
  next
    case False
    with i k have ik: "i \<in> set (bs ! k)"
      by (auto simp: moved_set [OF r k h] split: if_splits)
    let ?di = "dev (bcache_buf s ! i)" and ?ni = "blockno (bcache_buf s ! i)"
    from pl [of i] False have same: "dev (bcache_buf ?s ! i) = ?di" "blockno (bcache_buf ?s ! i) = ?ni"
      and "cached s i" using c by (simp_all add: payload_def cached_def)
    from uniqD [OF assms(2) k ik this(3)]
    have fm: "find (matches s ?di ?ni) (bs ! k) = Some i"
      by (simp add: first_match_def)
    have "matches ?s ?di ?ni x = matches s ?di ?ni x" if "x \<noteq> l" for x
      using pl [of x] that by (simp add: matches_def payload_def)
    moreover have "x \<noteq> l" if "x \<in> set (remove1 l (bs ! k))" for x
      using that rings_distinct [OF r k] by auto
    ultimately have "find (matches ?s ?di ?ni) (remove1 l (bs ! k)) =
        find (matches s ?di ?ni) (remove1 l (bs ! k))"
      by (intro find_agree) blast
    also have "\<dots> = Some i"
      by (rule find_remove1 [OF fm False])
    finally have tl: "find (matches ?s ?di ?ni) (remove1 l (bs ! k)) = Some i" .
    show ?thesis
    proof (cases "k = ?h")
      case True
      from find_None_D [OF miss] ik True have "\<not> matches s d n i" by simp
      then have "\<not> matches ?s ?di ?ni l"
        using pl [of l] by (auto simp: matches_def payload_def)
      with tl have "find (matches ?s ?di ?ni) (l # remove1 l (bs ! k)) = Some i"
        by simp
      moreover have "moved bs l ?h ! k = l # remove1 l (bs ! k)"
        using mn True by simp
      ultimately show ?thesis
        unfolding first_match_def same by simp
    next
      case False
      then have "moved bs l ?h ! k = remove1 l (bs ! k)"
        using mn by simp
      with tl show ?thesis
        unfolding first_match_def same by simp
    qed
  qed
qed

lemma taken_buf:
  assumes "i < NBUF s"
  shows "bcache_buf (taken p i s) ! j =
           (if j = i then (bcache_buf s ! i)\<lparr>lock := Some p, refcnt := refcnt (bcache_buf s ! i) + 1\<rparr>
            else bcache_buf s ! j)"
  using assms by (auto simp: taken_def buf_store)

lemma bget_uniq:
  assumes "cache_inv s bs" "uniq s bs" "bget p d n s = Some (Inr (b, s1))"
  shows "\<exists>bs1 i. cache_inv s1 bs1 \<and> uniq s1 bs1 \<and> b = Slot i \<and> i < NBUF s1 \<and>
           i \<in> set (bs1 ! (unat n mod NBUCKET)) \<and> first_match s1 (bs1 ! (unat n mod NBUCKET)) i \<and>
           dev (bcache_buf s1 ! i) = d \<and> blockno (bcache_buf s1 ! i) = n"
proof (cases "find (matches s d n) (bs ! (unat n mod NBUCKET))")
  case (Some i)
  let ?h = "unat n mod NBUCKET"
  have h: "?h < NBUCKET" by (simp add: NBUCKET_def)
  note fi = find_in [OF Some]
  from fi rings_bound [OF inv_rings [OF assms(1)] h] have i: "i < NBUF s"
    by simp
  from assms(3) have b: "b = Slot i" and s1: "s1 = taken p i s"
    by (auto simp: bget_hit_eq [OF assms(1) Some] split: option.splits)
  have fm: "first_match s (bs ! ?h) i"
    using Some fi by (simp add: first_match_def matches_def)
  have "uniq (taken p i s) bs"
  proof (rule uniq_frame [OF taken_frame assms(2)])
    fix k j assume kj: "k < NBUCKET" "j \<in> set (bs ! k)" "cached (taken p i s) j"
    show "cached s j \<or> first_match s (bs ! k) j"
    proof (cases "j = i")
      case True
      have "k = ?h"
        using rings_disjoint [OF inv_rings [OF assms(1)] h kj(1) _ conjunct1 [OF fi]] kj(2) True
        by auto
      with fm True show ?thesis by simp
    next
      case False
      with kj(3) show ?thesis
        by (simp add: cached_def taken_buf [OF i])
    qed
  qed
  moreover have "cache_inv (taken p i s) bs"
    by (rule frame_inv [OF taken_frame assms(1)])
  moreover have "NBUF (taken p i s) = NBUF s"
    by (simp add: taken_def)
  moreover have "first_match (taken p i s) (bs ! ?h) i"
    using fm by (simp add: frame_first_match [OF taken_frame])
  moreover have "dev (bcache_buf (taken p i s) ! i) = d" "blockno (bcache_buf (taken p i s) ! i) = n"
    using fi by (simp_all add: taken_buf [OF i] matches_def)
  ultimately show ?thesis
    using i b s1 fi by (intro exI [of _ bs] exI [of _ i]) simp
next
  case None
  let ?h = "unat n mod NBUCKET"
  have h: "?h < NBUCKET" by (simp add: NBUCKET_def)
  from assms(3) obtain l where l: "scan s = Some l" "b = Slot l" "s1 = recycled p d n l s"
    by (auto simp: bget_miss_eq [OF assms(1) None] split: option.splits)
  note ln = scan_Some(1) [OF l(1)]
  have iv: "cache_inv s1 (moved bs l ?h)"
    unfolding l(3) by (rule recycled_inv [OF assms(1) ln])
  have un: "uniq s1 (moved bs l ?h)"
    unfolding l(3) by (rule recycled_uniq [OF assms(1,2) ln None])
  have mem: "l \<in> set (moved bs l ?h ! ?h)"
    by (simp add: moved_set [OF inv_rings [OF assms(1)] h h])
  have key: "dev (bcache_buf s1 ! l) = d" "blockno (bcache_buf s1 ! l) = n"
    using recycled_buf [OF assms(1) ln, of p d n l] by (simp_all add: l(3) payload_def)
  have "first_match s1 (moved bs l ?h ! ?h) l"
    by (simp add: moved_nth [OF inv_rings [OF assms(1)] h] first_match_def matches_def)
  moreover have "NBUF s1 = NBUF s"
    by (simp add: l(3) recycled_def)
  ultimately show ?thesis
    using iv un mem key l(2) ln by (intro exI [of _ "moved bs l ?h"] exI [of _ l]) simp
qed

subsection \<open>Bucket contents and disciplined callers\<close>

lemma chain_dseg:
  assumes "dseg (nxt s) (prv s) p c xs (Head h)" "\<forall>i \<in> set xs. i < NBUF s" "length xs \<le> k"
  shows "chain s k h c = Some xs"
  using assms
proof (induction xs arbitrary: p c k)
  case Nil
  then show ?case by (cases k) (simp_all add: chain.simps)
next
  case (Cons i xs)
  then obtain k' where k: "k = Suc k'" "length xs \<le> k'" by (cases k) auto
  from Cons.prems have c: "c = Slot i" and i: "i < NBUF s"
    and rest: "dseg (nxt s) (prv s) (Slot i) (nxt s (Slot i)) xs (Head h)" by simp_all
  from Cons.prems have "\<forall>i \<in> set xs. i < NBUF s" by simp
  from Cons.IH [OF rest this k(2)] have "chain s k' h (b_next (bcache_buf s ! i)) = Some xs"
    by (simp add: nxt_def obj_simps)
  then show ?case
    by (simp add: k(1) c i chain.simps)
qed

lemma bounded_length:
  assumes "distinct xs" "\<forall>i \<in> set xs. i < (n::nat)"
  shows "length xs \<le> n"
proof -
  have "card (set xs) \<le> card {..<n}"
    using assms(2) by (intro card_mono) auto
  with assms(1) show ?thesis
    by (simp add: distinct_card)
qed

lemma members_rings:
  assumes "rings s bs" "h < NBUCKET"
  shows "members s h = Some (bs ! h)"
proof -
  from rings_ring [OF assms]
  have "dseg (nxt s) (prv s) (Head h) (nxt s (Head h)) (bs ! h) (Head h)"
    by (simp add: ring_def)
  moreover have b: "\<forall>i \<in> set (bs ! h). i < NBUF s"
    using rings_bound [OF assms] by blast
  moreover have "length (bs ! h) \<le> NBUF s"
    by (rule bounded_length [OF rings_distinct [OF assms] b])
  ultimately have "chain s (NBUF s) h (nxt s (Head h)) = Some (bs ! h)"
    by (rule chain_dseg)
  then show ?thesis
    by (simp add: members_def nxt_def obj_simps)
qed

lemma bget_result:
  assumes "cache_inv s bs" "bget p d n s = Some (Inr (b, s1))"
  shows "(\<exists>i. find (matches s d n) (bs ! (unat n mod NBUCKET)) = Some i \<and> i < NBUF s \<and>
              b = Slot i \<and> s1 = taken p i s \<and> lock (bcache_buf s ! i) = None) \<or>
         (\<exists>l. find (matches s d n) (bs ! (unat n mod NBUCKET)) = None \<and> scan s = Some l \<and>
              b = Slot l \<and> s1 = recycled p d n l s \<and> lock (bcache_buf s ! l) = None)"
proof (cases "find (matches s d n) (bs ! (unat n mod NBUCKET))")
  case (Some i)
  have h: "unat n mod NBUCKET < NBUCKET" by (simp add: NBUCKET_def)
  from find_in [OF Some] rings_bound [OF inv_rings [OF assms(1)] h] have i: "i < NBUF s"
    by simp
  from assms(2) have "b = Slot i" "s1 = taken p i s" "lock (bcache_buf s ! i) = None"
    by (auto simp: bget_hit_eq [OF assms(1) Some] split: option.splits)
  with Some i show ?thesis by simp
next
  case None
  from assms(2) obtain l where "scan s = Some l" "b = Slot l" "s1 = recycled p d n l s"
    "lock (bcache_buf s ! l) = None"
    by (auto simp: bget_miss_eq [OF assms(1) None] split: option.splits)
  with None show ?thesis by simp
qed

lemma recycled_misc [simp]:
  "NBUF (recycled p d n l s) = NBUF s" "io (recycled p d n l s) = io s"
  "ticks (recycled p d n l s) = ticks s" "disk (recycled p d n l s) = disk s"
  by (simp_all add: recycled_def)

lemma taken_misc [simp]:
  "NBUF (taken p i s) = NBUF s" "io (taken p i s) = io s"
  "ticks (taken p i s) = ticks s" "disk (taken p i s) = disk s"
  by (simp_all add: taken_def)

lemma taken_list:
  assumes "i < NBUF s"
  shows "taken p i s =
           s\<lparr>bcache_buf := (bcache_buf s)
                [i := (bcache_buf s ! i)\<lparr>refcnt := refcnt (bcache_buf s ! i) + 1, lock := Some p\<rparr>]\<rparr>"
  using assms by (simp add: taken_def store_def NBUF_def)

lemma uniq_store:
  assumes "uniq s bs" "deref s b = Some x" "refcnt x \<noteq> 0"
    and f: "\<And>y. b_next (f y) = b_next y \<and> b_prev (f y) = b_prev y \<and>
                dev (f y) = dev y \<and> blockno (f y) = blockno y \<and> valid (f y) = valid y"
  shows "uniq (store b f s) bs"
proof (rule uniq_frame [OF frame_store assms(1)])
  fix h i assume "h < NBUCKET" "i \<in> set (bs ! h)" and c: "cached (store b f s) i"
  have ok: "ok s b"
    using assms(2) by (cases "ok s b") (simp_all add: deref_not_ok)
  with assms(2) have x: "x = obj s b" by (simp add: deref_ok)
  have "bcache_buf (store b f s) ! i = (if b = Slot i then f (bcache_buf s ! i) else bcache_buf s ! i)"
    using ok by (simp add: buf_store)
  with c assms(3) x show "cached s i \<or> first_match s (bs ! h) i"
    by (auto simp: cached_def f obj_simps split: if_splits)
qed (simp add: f)

lemma uniq_fields:
  assumes "bcache_buf s' = bcache_buf s" "uniq s bs"
  shows "uniq s' bs"
proof -
  have "matches s' = matches s"
    by (simp add: fun_eq_iff matches_def assms(1))
  with assms show ?thesis
    by (simp add: uniq_def cached_def first_match_def)
qed

lemma bwrite_uniq:
  assumes "bwrite p b s = Inr s'" "uniq s bs"
  shows "uniq s' bs"
proof (cases "ok s b")
  case True
  with assms(1) have "bcache_buf s' = bcache_buf s"
    by (auto simp: bwrite_def load_ok virtio_disk_rw_eq split: if_splits)
  from uniq_fields [OF this assms(2)] show ?thesis .
next
  case False
  with assms(1) show ?thesis by (simp add: bwrite_def load_def deref_not_ok)
qed

lemma bread_result:
  assumes "bread p d n s = Some (Inr (b, s'))"
  shows "\<exists>s1. bget p d n s = Some (Inr (b, s1)) \<and> ok s1 b \<and> frame s1 s' \<and>
           NBUF s' = NBUF s1 \<and> ticks s' = ticks s1 \<and> valid (obj s' b) \<noteq> 0 \<and>
           (\<forall>r. refcnt (obj s' r) = refcnt (obj s1 r) \<and> lock (obj s' r) = lock (obj s1 r) \<and>
                lu_time (obj s' r) = lu_time (obj s1 r) \<and>
                (r \<noteq> b \<longrightarrow> valid (obj s' r) = valid (obj s1 r))) \<and>
           (if valid (obj s1 b) = 0
            then io s' = io s1 @ [(False, dev (obj s1 b), blockno (obj s1 b))]
            else s' = s1)"
proof -
  from bread_eq [OF assms] obtain s1 where g: "bget p d n s = Some (Inr (b, s1))" and ok: "ok s1 b"
    and c: "if valid (obj s1 b) = 0
            then \<exists>s2. virtio_disk_rw b False s1 = Inr s2 \<and> s' = store b (\<lambda>y. y\<lparr>valid := 1\<rparr>) s2
            else s' = s1" by blast
  show ?thesis
  proof (cases "valid (obj s1 b) = 0")
    case True
    let ?io = "io s1 @ [(False, dev (obj s1 b), blockno (obj s1 b))]"
    let ?s2 = "store b (\<lambda>x. x\<lparr>data := disk s1 (dev (obj s1 b), blockno (obj s1 b))\<rparr>) (s1\<lparr>io := ?io\<rparr>)"
    from True c ok have s': "s' = store b (\<lambda>y. y\<lparr>valid := 1\<rparr>) ?s2"
      by (simp add: virtio_disk_rw_eq)
    have o1: "obj (s1\<lparr>io := ?io\<rparr>) r = obj s1 r" for r
      by (simp add: obj_def split: ref.splits)
    have k1: "ok (s1\<lparr>io := ?io\<rparr>) r = ok s1 r" for r
      by (simp add: ok_def NBUF_def split: ref.splits)
    have "frame s1 s'"
      unfolding s' by (rule frame_trans [OF frame_trans [OF frame_io frame_store] frame_store]) simp_all
    moreover have "NBUF s' = NBUF s1"
      by (simp add: s') (simp add: NBUF_def)
    ultimately show ?thesis
      using g ok True by (auto simp: s' obj_store o1 k1)
  next
    case False
    with c g ok show ?thesis
      by (auto simp: frame_refl)
  qed
qed

lemma bread_uniq:
  assumes "cache_inv s bs" "uniq s bs" "bread p d n s = Some (Inr (b, s'))"
  shows "\<exists>bs'. cache_inv s' bs' \<and> uniq s' bs'"
proof -
  from bread_result [OF assms(3)] obtain s1 where g: "bget p d n s = Some (Inr (b, s1))"
    and f: "frame s1 s'"
    and same: "\<forall>r. refcnt (obj s' r) = refcnt (obj s1 r) \<and>
                (r \<noteq> b \<longrightarrow> valid (obj s' r) = valid (obj s1 r))" by blast
  let ?h = "unat n mod NBUCKET"
  have h: "?h < NBUCKET" by (simp add: NBUCKET_def)
  from bget_uniq [OF assms(1,2) g] obtain bs1 i where i: "cache_inv s1 bs1" "uniq s1 bs1"
    "b = Slot i" "i \<in> set (bs1 ! ?h)" "first_match s1 (bs1 ! ?h) i" by blast
  have "uniq s' bs1"
  proof (rule uniq_frame [OF f i(2)])
    fix k j assume kj: "k < NBUCKET" "j \<in> set (bs1 ! k)" "cached s' j"
    show "cached s1 j \<or> first_match s1 (bs1 ! k) j"
    proof (cases "j = i")
      case True
      have "k = ?h"
        using rings_disjoint [OF inv_rings [OF i(1)] h kj(1) _ i(4)] kj(2) True by auto
      with i(5) True show ?thesis by simp
    next
      case False
      with kj(3) same [rule_format, of "Slot j"] i(3) show ?thesis
        by (simp add: cached_def obj_simps)
    qed
  qed
  with frame_inv [OF f i(1)] show ?thesis by blast
qed

lemma disciplined_inv: "disciplined s \<Longrightarrow> \<exists>bs. cache_inv s bs \<and> uniq s bs"
proof (induction rule: disciplined.induct)
  case (boot nbuf dsk s)
  note b = boot_inv [OF this]
  have "uniq s (initial nbuf)"
    unfolding uniq_def
  proof (intro allI impI ballI)
    fix h i assume "h < NBUCKET" "i \<in> set (initial nbuf ! h)" "cached s i"
    moreover from this have "i < nbuf"
      by (auto simp: initial_nth split: if_splits)
    ultimately show "first_match s (initial nbuf ! h) i"
      using b(3) by (simp add: cached_def payload_def)
  qed
  with b(1) show ?case by blast
next
  case (tick s t)
  then obtain bs where "cache_inv s bs" "uniq s bs" by blast
  then have "cache_inv (s\<lparr>ticks := t\<rparr>) bs" "uniq (s\<lparr>ticks := t\<rparr>) bs"
    by (auto intro: frame_inv [OF frame_ticks] uniq_fields [rotated])
  then show ?case by blast
next
  case (bread s p d n b s')
  then show ?case by (blast dest: bread_uniq)
next
  case (bwrite s p b s')
  then show ?case by (blast intro: frame_inv [OF bwrite_frame] bwrite_uniq)
next
  case (brelse s b x p s')
  then obtain bs where bs: "cache_inv s bs" "uniq s bs" by blast
  from brelse_eq [OF brelse.hyps(4)]
  have s': "s' = store b (\<lambda>x. x\<lparr>lock := None, refcnt := refcnt x - 1, lu_time := int (ticks s)\<rparr>) s"
    by simp
  have "uniq s' bs"
    unfolding s' by (rule uniq_store [OF bs(2) brelse.hyps(2,3)]) simp
  with frame_inv [OF brelse_frame [OF brelse.hyps(4)] bs(1)] show ?case by blast
next
  case (bpin s b x s')
  then obtain bs where bs: "cache_inv s bs" "uniq s bs" by blast
  from bpin_eq [OF bpin.hyps(4)] have s': "s' = store b (\<lambda>x. x\<lparr>refcnt := refcnt x + 1\<rparr>) s"
    by simp
  have "uniq s' bs"
    unfolding s' by (rule uniq_store [OF bs(2) bpin.hyps(2,3)]) simp
  with frame_inv [OF bpin_frame [OF bpin.hyps(4)] bs(1)] show ?case by blast
next
  case (bunpin s b x s')
  then obtain bs where bs: "cache_inv s bs" "uniq s bs" by blast
  from bunpin_eq [OF bunpin.hyps(4)] have s': "s' = store b (\<lambda>x. x\<lparr>refcnt := refcnt x - 1\<rparr>) s"
    by simp
  have "uniq s' bs"
    unfolding s' by (rule uniq_store [OF bs(2) bunpin.hyps(2,3)]) simp
  with frame_inv [OF bunpin_frame [OF bunpin.hyps(4)] bs(1)] show ?case by blast
qed

lemma uniq_keys:
  assumes "cache_inv s bs" "uniq s bs" "i < NBUF s" "j < NBUF s" "cached s i" "cached s j"
    and "dev (bcache_buf s ! i) = dev (bcache_buf s ! j)"
    and "blockno (bcache_buf s ! i) = blockno (bcache_buf s ! j)"
  shows "i = j"
proof -
  from inv_cover [OF assms(1,3)] obtain hi where hi: "hi < NBUCKET" "i \<in> set (bs ! hi)" by blast
  from inv_cover [OF assms(1,4)] obtain hj where hj: "hj < NBUCKET" "j \<in> set (bs ! hj)" by blast
  from inv_hash [OF assms(1) hi] inv_hash [OF assms(1) hj] assms(8) have "hi = hj" by simp
  with uniqD [OF assms(2) hi assms(5)] uniqD [OF assms(2) hj assms(6)] assms(7,8)
  show ?thesis by (simp add: first_match_def)
qed

subsection \<open>Facts for the claims\<close>

lemma boot_total: "\<exists>s. binit (boot nbuf dsk) = Inr s"
proof -
  have "length (bucket_head (boot nbuf dsk)) = NBUCKET" by (simp add: boot_def)
  from binit_fresh [OF this] show ?thesis by blast
qed

lemma lookup_find:
  assumes "cache_inv s bs"
  shows "lookup s (unat n mod NBUCKET) d n (b_next (bucket_head s ! (unat n mod NBUCKET))) =
           Some (Inr (map_option Slot (find (matches s d n) (bs ! (unat n mod NBUCKET)))))"
  by (rule lookup_ring [OF inv_rings [OF assms]]) (simp add: NBUCKET_def)

lemma lookup_miss:
  assumes "cache_inv s bs"
    and "lookup s (unat n mod NBUCKET) d n (b_next (bucket_head s ! (unat n mod NBUCKET))) = Some (Inr None)"
  shows "find (matches s d n) (bs ! (unat n mod NBUCKET)) = None"
  using assms(2) by (simp add: lookup_find [OF assms(1)])

lemma lookup_hit:
  assumes "cache_inv s bs"
    and "lookup s (unat n mod NBUCKET) d n (b_next (bucket_head s ! (unat n mod NBUCKET))) = Some (Inr (Some (Slot i)))"
  shows "find (matches s d n) (bs ! (unat n mod NBUCKET)) = Some i"
  using assms(2) by (auto simp: lookup_find [OF assms(1)])

lemma recycled_members:
  assumes "cache_inv s bs" "l < NBUF s"
  shows "members (recycled p d n l s) (unat n mod NBUCKET) =
           Some (l # remove1 l (bs ! (unat n mod NBUCKET)))"
proof -
  have h: "unat n mod NBUCKET < NBUCKET" by (simp add: NBUCKET_def)
  from members_rings [OF inv_rings [OF recycled_inv [OF assms]] h, of p d]
  show ?thesis
    by (simp add: moved_nth [OF inv_rings [OF assms(1)] h])
qed

lemma bget_saturated:
  assumes "cache_inv s bs"
    and "lookup s (unat n mod NBUCKET) d n (b_next (bucket_head s ! (unat n mod NBUCKET))) = Some (Inr None)"
    and "\<forall>i < NBUF s. refcnt (bcache_buf s ! i) \<noteq> 0"
  shows "bget p d n s = None"
  using assms(3)
  by (simp add: bget_miss_eq [OF assms(1) lookup_miss [OF assms(1,2)]] scan_None [symmetric])

lemma bget_victim:
  assumes "cache_inv s bs"
    and "lookup s (unat n mod NBUCKET) d n (b_next (bucket_head s ! (unat n mod NBUCKET))) = Some (Inr None)"
    and "bget p d n s = Some (Inr (b, s'))"
  shows "\<exists>l. scan s = Some l \<and> b = Slot l \<and> s' = recycled p d n l s \<and> lock (bcache_buf s ! l) = None"
  using bget_result [OF assms(1,3)] lookup_miss [OF assms(1,2)] by auto

lemma boot_facts:
  assumes "binit (boot nbuf dsk) = Inr s" "i < nbuf"
  shows "refcnt (bcache_buf s ! i) = 0" "lock (bcache_buf s ! i) = None"
    "valid (bcache_buf s ! i) = 0" "lu_time (bcache_buf s ! i) = - 1"
    "dev (bcache_buf s ! i) = 0" "blockno (bcache_buf s ! i) = 0"
  using boot_inv(3) [OF assms(1)] assms(2) by (simp_all add: payload_def)

lemma boot_lookup_miss:
  assumes "binit (boot nbuf dsk) = Inr s" "unat n mod NBUCKET \<noteq> 0"
  shows "lookup s (unat n mod NBUCKET) d n (b_next (bucket_head s ! (unat n mod NBUCKET)))
           = Some (Inr None)"
proof -
  have "unat n mod NBUCKET < NBUCKET" by (simp add: NBUCKET_def)
  from initial_nth [OF this] assms(2) have "initial nbuf ! (unat n mod NBUCKET) = []"
    by simp
  then show ?thesis
    by (simp only: lookup_find [OF boot_inv(1) [OF assms(1)]] find.simps option.map)
qed

lemma returned:
  "(case m of Inr s \<Rightarrow> P s | Inl e \<Rightarrow> False) \<Longrightarrow> \<exists>s. m = Inr s \<and> P s"
  by (cases m) simp_all

lemma returned_buf:
  "(case m of Some (Inr (b, s)) \<Rightarrow> P b s | _ \<Rightarrow> False) \<Longrightarrow> \<exists>b s. m = Some (Inr (b, s)) \<and> P b s"
  by (auto split: option.splits sum.splits)

subsection \<open>What bget and bread return\<close>

lemma frame_find: "frame s s' \<Longrightarrow> find (matches s' d n) xs = find (matches s d n) xs"
  by (rule find_agree) (simp add: frame_matches)

lemma bget_first:
  assumes "cache_inv s bs" "bget p d n s = Some (Inr (b, s1))"
  shows "\<exists>bs1 i. cache_inv s1 bs1 \<and> b = Slot i \<and> i < NBUF s1 \<and> NBUF s1 = NBUF s \<and> io s1 = io s \<and>
           find (matches s1 d n) (bs1 ! (unat n mod NBUCKET)) = Some i"
proof -
  let ?h = "unat n mod NBUCKET"
  have h: "?h < NBUCKET" by (simp add: NBUCKET_def)
  from bget_result [OF assms] show ?thesis
  proof (elim disjE exE conjE)
    fix i assume i: "find (matches s d n) (bs ! ?h) = Some i" "i < NBUF s" "b = Slot i"
      "s1 = taken p i s"
    have "cache_inv s1 bs"
      unfolding i(4) by (rule frame_inv [OF taken_frame assms(1)])
    moreover have "find (matches s1 d n) (bs ! ?h) = Some i"
      unfolding i(4) by (simp add: frame_find [OF taken_frame] i(1))
    ultimately show ?thesis
      using i(2,3) by (intro exI [of _ bs] exI [of _ i]) (simp add: i(4))
  next
    fix l assume l: "scan s = Some l" "b = Slot l" "s1 = recycled p d n l s"
    note ln = scan_Some(1) [OF l(1)]
    have "cache_inv s1 (moved bs l ?h)"
      unfolding l(3) by (rule recycled_inv [OF assms(1) ln])
    moreover have "matches s1 d n l"
      using recycled_buf [OF assms(1) ln, of p d n l] by (simp add: l(3) matches_def payload_def)
    then have "find (matches s1 d n) (moved bs l ?h ! ?h) = Some l"
      by (simp add: moved_nth [OF inv_rings [OF assms(1)] h])
    ultimately show ?thesis
      using ln l(2) by (intro exI [of _ "moved bs l ?h"] exI [of _ l]) (simp add: l(3))
  qed
qed

lemma bread_first:
  assumes "cache_inv s bs" "bread p d n s = Some (Inr (b, s'))"
  shows "\<exists>bs' i. cache_inv s' bs' \<and> b = Slot i \<and> i < NBUF s' \<and>
           find (matches s' d n) (bs' ! (unat n mod NBUCKET)) = Some i \<and>
           valid (bcache_buf s' ! i) \<noteq> 0"
proof -
  from bread_result [OF assms(2)] obtain s1 where g: "bget p d n s = Some (Inr (b, s1))"
    and f: "frame s1 s'" and n: "NBUF s' = NBUF s1" and v: "valid (obj s' b) \<noteq> 0" by blast
  from bget_first [OF assms(1) g] obtain bs1 i where i: "cache_inv s1 bs1" "b = Slot i"
    "i < NBUF s1" "find (matches s1 d n) (bs1 ! (unat n mod NBUCKET)) = Some i" by blast
  show ?thesis
    using frame_inv [OF f i(1)] i(2,3,4) n v
    by (intro exI [of _ bs1] exI [of _ i]) (simp add: frame_find [OF f] obj_simps)
qed

lemma chain_agree:
  assumes "NBUF s' = NBUF s" "\<And>i. i < NBUF s \<Longrightarrow> b_next (bcache_buf s' ! i) = b_next (bcache_buf s ! i)"
  shows "chain s' k h c = chain s k h c"
proof (induction k arbitrary: c)
  case 0
  show ?case by (simp add: chain.simps)
next
  case (Suc k)
  show ?case
    by (cases c) (simp_all add: chain.simps assms Suc)
qed

lemma store_list:
  "i < NBUF s \<Longrightarrow> store (Slot i) f s = s\<lparr>bcache_buf := (bcache_buf s)[i := f (bcache_buf s ! i)]\<rparr>"
  by (simp add: store_def)

subsection \<open>Time stamps\<close>

lemma stamped_store:
  assumes "stamped s" "\<And>x. - 1 \<le> lu_time x \<Longrightarrow> - 1 \<le> lu_time (f x)"
  shows "stamped (store b f s)"
proof (cases "ok s b")
  case True
  with assms show ?thesis
    by (cases b) (auto simp: stamped_def buf_store)
next
  case False
  then have "bcache_buf (store b f s) = bcache_buf s"
    by (cases b) (simp_all add: store_def NBUF_def list_update_beyond)
  with assms(1) show ?thesis by (simp add: stamped_def NBUF_def)
qed

lemma bget_lu_time:
  assumes "cache_inv s bs" "bget p d n s = Some (Inr (b, s1))"
  shows "NBUF s1 = NBUF s" "lu_time (bcache_buf s1 ! i) = lu_time (bcache_buf s ! i)"
proof -
  from bget_result [OF assms] consider
    j where "j < NBUF s" "s1 = taken p j s" |
    l where "scan s = Some l" "s1 = recycled p d n l s"
    by blast
  then have "NBUF s1 = NBUF s \<and> lu_time (bcache_buf s1 ! i) = lu_time (bcache_buf s ! i)"
  proof cases
    case 1
    then show ?thesis by (simp add: taken_buf)
  next
    case 2
    from recycled_buf [OF assms(1) scan_Some(1) [OF 2(1)], of p d n i] 2(2) show ?thesis
      by (simp add: payload_def split: if_splits)
  qed
  then show "NBUF s1 = NBUF s" "lu_time (bcache_buf s1 ! i) = lu_time (bcache_buf s ! i)"
    by simp_all
qed

lemma bread_lu_time:
  assumes "cache_inv s bs" "bread p d n s = Some (Inr (b, s'))"
  shows "NBUF s' = NBUF s" "lu_time (bcache_buf s' ! i) = lu_time (bcache_buf s ! i)"
proof -
  from bread_result [OF assms(2)] obtain s1 where g: "bget p d n s = Some (Inr (b, s1))"
    and n: "NBUF s' = NBUF s1"
    and same: "\<forall>r. lu_time (obj s' r) = lu_time (obj s1 r)" by blast
  from n bget_lu_time(1) [OF assms(1) g] show "NBUF s' = NBUF s" by simp
  from same [rule_format, of "Slot i"] bget_lu_time(2) [OF assms(1) g, of i]
  show "lu_time (bcache_buf s' ! i) = lu_time (bcache_buf s ! i)"
    by (simp add: obj_simps)
qed

lemma bwrite_lu_time:
  assumes "bwrite p b s = Inr s'"
  shows "bcache_buf s' = bcache_buf s"
proof (cases "ok s b")
  case True
  with assms have "virtio_disk_rw b True s = Inr s'"
    by (simp add: bwrite_def load_ok split: if_splits)
  then show ?thesis by (auto simp: virtio_disk_rw_eq [OF True])
next
  case False
  with assms show ?thesis
    by (simp add: bwrite_def load_def deref_not_ok)
qed

lemma reachable_stamped: "reachable s \<Longrightarrow> stamped s"
proof (induction rule: reachable.induct)
  case (boot nbuf dsk s)
  from boot_inv(2) [OF this] boot_facts(4) [OF this] show ?case
    by (simp add: stamped_def)
next
  case (tick s t)
  then show ?case by (simp add: stamped_def NBUF_def)
next
  case (bread s p d n b s')
  from reachable_inv [OF bread(1)] obtain bs where "cache_inv s bs" ..
  from bread_lu_time [OF this bread(2)] bread(3) show ?case
    by (simp add: stamped_def)
next
  case (bwrite s p b s')
  from bwrite_lu_time [OF bwrite(2)] bwrite(3) show ?case
    by (simp add: stamped_def NBUF_def)
next
  case (brelse s p b s')
  from brelse_eq [OF brelse(2)] stamped_store [OF brelse(3)] show ?case by simp
next
  case (bpin s b s')
  from bpin_eq [OF bpin(2)] stamped_store [OF bpin(3)] show ?case by simp
next
  case (bunpin s b s')
  from bunpin_eq [OF bunpin(2)] stamped_store [OF bunpin(3)] show ?case by simp
qed

lemma scan_finds:
  assumes "j < NBUF s" "refcnt (bcache_buf s ! j) = 0"
  shows "\<exists>l. scan s = Some l"
proof (cases "scan s")
  case None
  with scan_None [of s] assms show ?thesis by auto
qed simp

subsection \<open>One buffer for each block with valid data\<close>

lemma uniqvD: "uniqv s bs \<Longrightarrow> h < NBUCKET \<Longrightarrow> i \<in> set (bs ! h) \<Longrightarrow> filled s i \<Longrightarrow> first_match s (bs ! h) i"
  by (simp add: uniqv_def)

lemma uniqv_frame:
  assumes "frame s s'" "uniqv s bs"
    and "\<And>h i. h < NBUCKET \<Longrightarrow> i \<in> set (bs ! h) \<Longrightarrow> filled s' i \<Longrightarrow>
           filled s i \<or> first_match s (bs ! h) i"
  shows "uniqv s' bs"
  unfolding uniqv_def
proof (intro allI impI ballI)
  fix h i assume h: "h < NBUCKET" "i \<in> set (bs ! h)" "filled s' i"
  from assms(3) [OF h] uniqvD [OF assms(2) h(1,2)] have "first_match s (bs ! h) i"
    by blast
  then show "first_match s' (bs ! h) i"
    by (simp add: frame_first_match [OF assms(1)])
qed

lemma recycled_uniqv:
  assumes "cache_inv s bs" "uniqv s bs" "l < NBUF s"
    and miss: "find (matches s d n) (bs ! (unat n mod NBUCKET)) = None"
  shows "uniqv (recycled p d n l s) (moved bs l (unat n mod NBUCKET))"
  unfolding uniqv_def
proof (intro allI impI ballI)
  let ?h = "unat n mod NBUCKET" and ?s = "recycled p d n l s"
  have h: "?h < NBUCKET" by (simp add: NBUCKET_def)
  note r = inv_rings [OF assms(1)]
  note pl = recycled_buf [OF assms(1,3), of p d n]
  fix k i assume k: "k < NBUCKET" and i: "i \<in> set (moved bs l ?h ! k)" and c: "filled ?s i"
  note mn = moved_nth [OF r k, of l ?h]
  show "first_match ?s (moved bs l ?h ! k) i"
  proof (cases "i = l")
    case True
    with i k have kh: "k = ?h"
      by (auto simp: moved_set [OF r k h] split: if_splits)
    have "moved bs l ?h ! k = l # remove1 l (bs ! k)"
      using mn kh by simp
    then show ?thesis
      unfolding True by (simp add: first_match_def matches_def)
  next
    case False
    with i k have ik: "i \<in> set (bs ! k)"
      by (auto simp: moved_set [OF r k h] split: if_splits)
    let ?di = "dev (bcache_buf s ! i)" and ?ni = "blockno (bcache_buf s ! i)"
    from pl [of i] False have same: "dev (bcache_buf ?s ! i) = ?di" "blockno (bcache_buf ?s ! i) = ?ni"
      and "filled s i" using c by (simp_all add: payload_def filled_def)
    from uniqvD [OF assms(2) k ik this(3)]
    have fm: "find (matches s ?di ?ni) (bs ! k) = Some i"
      by (simp add: first_match_def)
    have "matches ?s ?di ?ni x = matches s ?di ?ni x" if "x \<noteq> l" for x
      using pl [of x] that by (simp add: matches_def payload_def)
    moreover have "x \<noteq> l" if "x \<in> set (remove1 l (bs ! k))" for x
      using that rings_distinct [OF r k] by auto
    ultimately have "find (matches ?s ?di ?ni) (remove1 l (bs ! k)) =
        find (matches s ?di ?ni) (remove1 l (bs ! k))"
      by (intro find_agree) blast
    also have "\<dots> = Some i"
      by (rule find_remove1 [OF fm False])
    finally have tl: "find (matches ?s ?di ?ni) (remove1 l (bs ! k)) = Some i" .
    show ?thesis
    proof (cases "k = ?h")
      case True
      from find_None_D [OF miss] ik True have "\<not> matches s d n i" by simp
      then have "\<not> matches ?s ?di ?ni l"
        using pl [of l] by (auto simp: matches_def payload_def)
      with tl have "find (matches ?s ?di ?ni) (l # remove1 l (bs ! k)) = Some i"
        by simp
      moreover have "moved bs l ?h ! k = l # remove1 l (bs ! k)"
        using mn True by simp
      ultimately show ?thesis
        unfolding first_match_def same by simp
    next
      case False
      then have "moved bs l ?h ! k = remove1 l (bs ! k)"
        using mn by simp
      with tl show ?thesis
        unfolding first_match_def same by simp
    qed
  qed
qed

lemma bget_uniqv:
  assumes "cache_inv s bs" "uniqv s bs" "bget p d n s = Some (Inr (b, s1))"
  shows "\<exists>bs1 i. cache_inv s1 bs1 \<and> uniqv s1 bs1 \<and> b = Slot i \<and> i < NBUF s1 \<and>
           i \<in> set (bs1 ! (unat n mod NBUCKET)) \<and> first_match s1 (bs1 ! (unat n mod NBUCKET)) i \<and>
           dev (bcache_buf s1 ! i) = d \<and> blockno (bcache_buf s1 ! i) = n"
proof (cases "find (matches s d n) (bs ! (unat n mod NBUCKET))")
  case (Some i)
  let ?h = "unat n mod NBUCKET"
  have h: "?h < NBUCKET" by (simp add: NBUCKET_def)
  note fi = find_in [OF Some]
  from fi rings_bound [OF inv_rings [OF assms(1)] h] have i: "i < NBUF s"
    by simp
  from assms(3) have b: "b = Slot i" and s1: "s1 = taken p i s"
    by (auto simp: bget_hit_eq [OF assms(1) Some] split: option.splits)
  have fm: "first_match s (bs ! ?h) i"
    using Some fi by (simp add: first_match_def matches_def)
  have "uniqv (taken p i s) bs"
  proof (rule uniqv_frame [OF taken_frame assms(2)])
    fix k j assume kj: "k < NBUCKET" "j \<in> set (bs ! k)" "filled (taken p i s) j"
    show "filled s j \<or> first_match s (bs ! k) j"
    proof (cases "j = i")
      case True
      have "k = ?h"
        using rings_disjoint [OF inv_rings [OF assms(1)] h kj(1) _ conjunct1 [OF fi]] kj(2) True
        by auto
      with fm True show ?thesis by simp
    next
      case False
      with kj(3) show ?thesis
        by (simp add: filled_def taken_buf [OF i])
    qed
  qed
  moreover have "cache_inv (taken p i s) bs"
    by (rule frame_inv [OF taken_frame assms(1)])
  moreover have "NBUF (taken p i s) = NBUF s"
    by (simp add: taken_def)
  moreover have "first_match (taken p i s) (bs ! ?h) i"
    using fm by (simp add: frame_first_match [OF taken_frame])
  moreover have "dev (bcache_buf (taken p i s) ! i) = d" "blockno (bcache_buf (taken p i s) ! i) = n"
    using fi by (simp_all add: taken_buf [OF i] matches_def)
  ultimately show ?thesis
    using i b s1 fi by (intro exI [of _ bs] exI [of _ i]) simp
next
  case None
  let ?h = "unat n mod NBUCKET"
  have h: "?h < NBUCKET" by (simp add: NBUCKET_def)
  from assms(3) obtain l where l: "scan s = Some l" "b = Slot l" "s1 = recycled p d n l s"
    by (auto simp: bget_miss_eq [OF assms(1) None] split: option.splits)
  note ln = scan_Some(1) [OF l(1)]
  have iv: "cache_inv s1 (moved bs l ?h)"
    unfolding l(3) by (rule recycled_inv [OF assms(1) ln])
  have un: "uniqv s1 (moved bs l ?h)"
    unfolding l(3) by (rule recycled_uniqv [OF assms(1,2) ln None])
  have mem: "l \<in> set (moved bs l ?h ! ?h)"
    by (simp add: moved_set [OF inv_rings [OF assms(1)] h h])
  have key: "dev (bcache_buf s1 ! l) = d" "blockno (bcache_buf s1 ! l) = n"
    using recycled_buf [OF assms(1) ln, of p d n l] by (simp_all add: l(3) payload_def)
  have "first_match s1 (moved bs l ?h ! ?h) l"
    by (simp add: moved_nth [OF inv_rings [OF assms(1)] h] first_match_def matches_def)
  moreover have "NBUF s1 = NBUF s"
    by (simp add: l(3) recycled_def)
  ultimately show ?thesis
    using iv un mem key l(2) ln by (intro exI [of _ "moved bs l ?h"] exI [of _ l]) simp
qed

lemma uniqv_fields:
  assumes "bcache_buf s' = bcache_buf s" "uniqv s bs"
  shows "uniqv s' bs"
proof -
  have "matches s' = matches s"
    by (simp add: fun_eq_iff matches_def assms(1))
  with assms show ?thesis
    by (simp add: uniqv_def filled_def first_match_def)
qed

lemma bwrite_uniqv:
  assumes "bwrite p b s = Inr s'" "uniqv s bs"
  shows "uniqv s' bs"
proof (cases "ok s b")
  case True
  with assms(1) have "bcache_buf s' = bcache_buf s"
    by (auto simp: bwrite_def load_ok virtio_disk_rw_eq split: if_splits)
  from uniqv_fields [OF this assms(2)] show ?thesis .
next
  case False
  with assms(1) show ?thesis by (simp add: bwrite_def load_def deref_not_ok)
qed

lemma bread_uniqv:
  assumes "cache_inv s bs" "uniqv s bs" "bread p d n s = Some (Inr (b, s'))"
  shows "\<exists>bs'. cache_inv s' bs' \<and> uniqv s' bs'"
proof -
  from bread_result [OF assms(3)] obtain s1 where g: "bget p d n s = Some (Inr (b, s1))"
    and f: "frame s1 s'"
    and same: "\<forall>r. refcnt (obj s' r) = refcnt (obj s1 r) \<and>
                (r \<noteq> b \<longrightarrow> valid (obj s' r) = valid (obj s1 r))" by blast
  let ?h = "unat n mod NBUCKET"
  have h: "?h < NBUCKET" by (simp add: NBUCKET_def)
  from bget_uniqv [OF assms(1,2) g] obtain bs1 i where i: "cache_inv s1 bs1" "uniqv s1 bs1"
    "b = Slot i" "i \<in> set (bs1 ! ?h)" "first_match s1 (bs1 ! ?h) i" by blast
  have "uniqv s' bs1"
  proof (rule uniqv_frame [OF f i(2)])
    fix k j assume kj: "k < NBUCKET" "j \<in> set (bs1 ! k)" "filled s' j"
    show "filled s1 j \<or> first_match s1 (bs1 ! k) j"
    proof (cases "j = i")
      case True
      have "k = ?h"
        using rings_disjoint [OF inv_rings [OF i(1)] h kj(1) _ i(4)] kj(2) True by auto
      with i(5) True show ?thesis by simp
    next
      case False
      with kj(3) same [rule_format, of "Slot j"] i(3) show ?thesis
        by (simp add: filled_def obj_simps)
    qed
  qed
  with frame_inv [OF f i(1)] show ?thesis by blast
qed

lemma uniqv_keys:
  assumes "cache_inv s bs" "uniqv s bs" "i < NBUF s" "j < NBUF s" "filled s i" "filled s j"
    and "dev (bcache_buf s ! i) = dev (bcache_buf s ! j)"
    and "blockno (bcache_buf s ! i) = blockno (bcache_buf s ! j)"
  shows "i = j"
proof -
  from inv_cover [OF assms(1,3)] obtain hi where hi: "hi < NBUCKET" "i \<in> set (bs ! hi)" by blast
  from inv_cover [OF assms(1,4)] obtain hj where hj: "hj < NBUCKET" "j \<in> set (bs ! hj)" by blast
  from inv_hash [OF assms(1) hi] inv_hash [OF assms(1) hj] assms(8) have "hi = hj" by simp
  with uniqvD [OF assms(2) hi assms(5)] uniqvD [OF assms(2) hj assms(6)] assms(7,8)
  show ?thesis by (simp add: first_match_def)
qed

lemma uniqv_store:
  assumes "uniqv s bs"
    and f: "\<And>y. b_next (f y) = b_next y \<and> b_prev (f y) = b_prev y \<and>
                dev (f y) = dev y \<and> blockno (f y) = blockno y \<and> valid (f y) = valid y"
  shows "uniqv (store b f s) bs"
proof (cases "ok s b")
  case True
  show ?thesis
  proof (rule uniqv_frame [OF frame_store assms(1)])
    fix h i assume "h < NBUCKET" "i \<in> set (bs ! h)" and c: "filled (store b f s) i"
    have "bcache_buf (store b f s) ! i = (if b = Slot i then f (bcache_buf s ! i) else bcache_buf s ! i)"
      using True by (simp add: buf_store)
    with c show "filled s i \<or> first_match s (bs ! h) i"
      by (auto simp: filled_def f split: if_splits)
  qed (simp add: f)
next
  case False
  then have "bcache_buf (store b f s) = bcache_buf s"
    by (cases b) (simp_all add: store_def NBUF_def list_update_beyond)
  from uniqv_fields [OF this assms(1)] show ?thesis .
qed

lemma reachable_uniqv: "reachable s \<Longrightarrow> \<exists>bs. cache_inv s bs \<and> uniqv s bs"
proof (induction rule: reachable.induct)
  case (boot nbuf dsk s)
  note b = boot_inv [OF this]
  have "uniqv s (initial nbuf)"
    unfolding uniqv_def
  proof (intro allI impI ballI)
    fix h i assume "h < NBUCKET" "i \<in> set (initial nbuf ! h)" "filled s i"
    moreover from this have "i < nbuf"
      by (auto simp: initial_nth split: if_splits)
    ultimately show "first_match s (initial nbuf ! h) i"
      using b(3) by (simp add: filled_def payload_def)
  qed
  with b(1) show ?case by blast
next
  case (tick s t)
  then obtain bs where "cache_inv s bs" "uniqv s bs" by blast
  then have "cache_inv (s\<lparr>ticks := t\<rparr>) bs" "uniqv (s\<lparr>ticks := t\<rparr>) bs"
    by (auto intro: frame_inv [OF frame_ticks] uniqv_fields [rotated])
  then show ?case by blast
next
  case (bread s p d n b s')
  then show ?case by (blast dest: bread_uniqv)
next
  case (bwrite s p b s')
  then show ?case by (blast intro: frame_inv [OF bwrite_frame] bwrite_uniqv)
next
  case (brelse s p b s')
  then obtain bs where bs: "cache_inv s bs" "uniqv s bs" by blast
  from brelse_eq [OF brelse.hyps(2)]
  have s': "s' = store b (\<lambda>x. x\<lparr>lock := None, refcnt := refcnt x - 1, lu_time := int (ticks s)\<rparr>) s"
    by simp
  have "uniqv s' bs"
    unfolding s' by (rule uniqv_store [OF bs(2)]) simp
  with frame_inv [OF brelse_frame [OF brelse.hyps(2)] bs(1)] show ?case by blast
next
  case (bpin s b s')
  then obtain bs where bs: "cache_inv s bs" "uniqv s bs" by blast
  from bpin_eq [OF bpin.hyps(2)] have s': "s' = store b (\<lambda>x. x\<lparr>refcnt := refcnt x + 1\<rparr>) s"
    by simp
  have "uniqv s' bs"
    unfolding s' by (rule uniqv_store [OF bs(2)]) simp
  with frame_inv [OF bpin_frame [OF bpin.hyps(2)] bs(1)] show ?case by blast
next
  case (bunpin s b s')
  then obtain bs where bs: "cache_inv s bs" "uniqv s bs" by blast
  from bunpin_eq [OF bunpin.hyps(2)] have s': "s' = store b (\<lambda>x. x\<lparr>refcnt := refcnt x - 1\<rparr>) s"
    by simp
  have "uniqv s' bs"
    unfolding s' by (rule uniqv_store [OF bs(2)]) simp
  with frame_inv [OF bunpin_frame [OF bunpin.hyps(2)] bs(1)] show ?case by blast
qed

lemma disciplined_reachable: "disciplined s \<Longrightarrow> reachable s"
  by (induction rule: disciplined.induct) (auto intro: reachable.intros)

section \<open>The buffer cache: the claims\<close>

text \<open>
  C1. A call of \<open>bget(dev, blockno)\<close> whose scan of bucket \<open>blockno mod NBUCKET\<close>
  finds no buffer for the block: the buffer it returns is a buffer of the pool that
  had \<open>refcnt = 0\<close> and, among the buffers with \<open>refcnt = 0\<close>, the least
  \<open>lu_time\<close>; on return its \<open>dev\<close> and \<open>blockno\<close> are the arguments,
  \<open>valid\<close> is 0, \<open>refcnt\<close> is 1 and it is the first buffer on the list of bucket
  \<open>blockno mod NBUCKET\<close>. The call does return whenever the pool scan has a
  candidate whose sleep-lock is free, and the scan has a candidate as soon as one
  buffer has \<open>refcnt = 0\<close>.
\<close>

theorem bget_recycles_least_recently_used:
  assumes "reachable s"
    and "lookup s (unat n mod NBUCKET) d n (b_next (bucket_head s ! (unat n mod NBUCKET)))
           = Some (Inr None)"
  shows "(\<forall>b s'. bget p d n s = Some (Inr (b, s')) \<longrightarrow>
            (\<exists>l xs. b = Slot l \<and> l < NBUF s \<and> refcnt (bcache_buf s ! l) = 0 \<and>
               (\<forall>j < NBUF s. refcnt (bcache_buf s ! j) = 0 \<longrightarrow>
                  lu_time (bcache_buf s ! l) \<le> lu_time (bcache_buf s ! j)) \<and>
               dev (bcache_buf s' ! l) = d \<and> blockno (bcache_buf s' ! l) = n \<and>
               valid (bcache_buf s' ! l) = 0 \<and> refcnt (bcache_buf s' ! l) = 1 \<and>
               members s' (unat n mod NBUCKET) = Some (l # xs)))
       \<and> (\<forall>l. scan s = Some l \<and> lock (bcache_buf s ! l) = None \<longrightarrow>
            (\<exists>s'. bget p d n s = Some (Inr (Slot l, s'))))
       \<and> ((\<exists>j < NBUF s. refcnt (bcache_buf s ! j) = 0) \<longrightarrow> scan s \<noteq> None)"
proof -
  from reachable_inv [OF assms(1)] obtain bs where bs: "cache_inv s bs" ..
  note miss = lookup_miss [OF bs assms(2)]
  have "\<exists>l xs. b = Slot l \<and> l < NBUF s \<and> refcnt (bcache_buf s ! l) = 0 \<and>
               (\<forall>j < NBUF s. refcnt (bcache_buf s ! j) = 0 \<longrightarrow>
                  lu_time (bcache_buf s ! l) \<le> lu_time (bcache_buf s ! j)) \<and>
               dev (bcache_buf s' ! l) = d \<and> blockno (bcache_buf s' ! l) = n \<and>
               valid (bcache_buf s' ! l) = 0 \<and> refcnt (bcache_buf s' ! l) = 1 \<and>
               members s' (unat n mod NBUCKET) = Some (l # xs)"
    if g: "bget p d n s = Some (Inr (b, s'))" for b s'
  proof -
    from bget_victim [OF bs assms(2) g] obtain l
      where l: "scan s = Some l" "b = Slot l" "s' = recycled p d n l s" by blast
    note sc = scan_Some [OF l(1)]
    from recycled_buf [OF bs sc(1), of p d n l]
    have "dev (bcache_buf s' ! l) = d" "blockno (bcache_buf s' ! l) = n"
      "valid (bcache_buf s' ! l) = 0" "refcnt (bcache_buf s' ! l) = 1"
      by (simp_all add: l(3) payload_def)
    moreover have "members s' (unat n mod NBUCKET) = Some (l # remove1 l (bs ! (unat n mod NBUCKET)))"
      unfolding l(3) by (rule recycled_members [OF bs sc(1)])
    ultimately show ?thesis
      using l(2) sc(1,2) sc(3) by blast
  qed
  moreover have "\<exists>s'. bget p d n s = Some (Inr (Slot l, s'))"
    if "scan s = Some l" "lock (bcache_buf s ! l) = None" for l
    using that by (simp add: bget_miss_eq [OF bs miss])
  moreover have "scan s \<noteq> None" if "\<exists>j < NBUF s. refcnt (bcache_buf s ! j) = 0"
    using that by (simp add: scan_None)
  ultimately show ?thesis by blast
qed

theorem bget_recycles_least_recently_used_witness:
  "\<exists>s l s' xs. binit (boot 2 (\<lambda>_. [])) = Inr s \<and> reachable s \<and>
     lookup s (unat (7 :: 32 word) mod NBUCKET) 1 7
       (b_next (bucket_head s ! (unat (7 :: 32 word) mod NBUCKET))) = Some (Inr None) \<and>
     bget 0 1 7 s = Some (Inr (Slot l, s')) \<and> refcnt (bcache_buf s ! l) = 0 \<and>
     dev (bcache_buf s' ! l) = 1 \<and> blockno (bcache_buf s' ! l) = 7 \<and>
     refcnt (bcache_buf s' ! l) = 1 \<and> members s' (unat (7 :: 32 word) mod NBUCKET) = Some (l # xs)"
proof -
  from boot_total obtain s where s: "binit (boot 2 (\<lambda>_. [])) = Inr s" by blast
  then have r: "reachable s" by (rule reachable.boot)
  have m: "lookup s (unat (7 :: 32 word) mod NBUCKET) 1 7
       (b_next (bucket_head s ! (unat (7 :: 32 word) mod NBUCKET))) = Some (Inr None)"
    by (rule boot_lookup_miss [OF s]) (simp add: NBUCKET_def)
  note t = bget_recycles_least_recently_used [OF r m, of 0]
  have n: "NBUF s = 2" by (rule boot_inv(2) [OF s])
  have "\<exists>j < NBUF s. refcnt (bcache_buf s ! j) = 0"
    using boot_facts(1) [OF s, of 0] n by (intro exI [of _ 0]) simp
  with t obtain l where l: "scan s = Some l" by auto
  then have "l < 2" using scan_Some(1) [OF l] n by simp
  then have "lock (bcache_buf s ! l) = None" by (rule boot_facts(2) [OF s])
  with t l obtain s' where g: "bget 0 1 7 s = Some (Inr (Slot l, s'))" by blast
  with t obtain xs where "refcnt (bcache_buf s ! l) = 0"
     "dev (bcache_buf s' ! l) = 1" "blockno (bcache_buf s' ! l) = 7"
     "refcnt (bcache_buf s' ! l) = 1" "members s' (unat (7 :: 32 word) mod NBUCKET) = Some (l # xs)"
    by blast
  with s r m g show ?thesis by blast
qed

text \<open>
  C2. The specification asks that, with every buffer of the pool referenced, a
  \<open>bget\<close> that misses finds no candidate in its scan of the pool and panics
  "bget: no buffers". In the code such a call never returns and never panics: its
  loop \<open>while(lru == 0)\<close> goes round again whenever the scan leaves \<open>lru\<close> null,
  and the \<open>panic\<close> after the loop cannot be reached.
\<close>

theorem bget_saturated_never_returns:
  assumes "reachable s"
    and "lookup s (unat n mod NBUCKET) d n (b_next (bucket_head s ! (unat n mod NBUCKET)))
           = Some (Inr None)"
    and "\<forall>i < NBUF s. refcnt (bcache_buf s ! i) \<noteq> 0"
  shows "bget p d n s = None"
proof -
  from reachable_inv [OF assms(1)] obtain bs where "cache_inv s bs" ..
  from bget_saturated [OF this assms(2,3)] show ?thesis .
qed

theorem bget_saturated_never_returns_witness:
  "\<exists>s s1. binit (boot 1 (\<lambda>_. [])) = Inr s \<and> bread 0 1 7 s = Some (Inr (Slot 0, s1)) \<and>
     reachable s1 \<and> NBUF s1 = 1 \<and> refcnt (bcache_buf s1 ! 0) = 1 \<and>
     lookup s1 (unat (8 :: 32 word) mod NBUCKET) 1 8
       (b_next (bucket_head s1 ! (unat (8 :: 32 word) mod NBUCKET))) = Some (Inr None) \<and>
     bget 1 1 8 s1 = None"
proof -
  have "(case binit (boot 1 (\<lambda>_. [])) of
           Inr s \<Rightarrow>
             (case bread 0 1 7 s of
                Some (Inr (b, s1)) \<Rightarrow>
                  b = Slot 0 \<and> NBUF s1 = 1 \<and> refcnt (bcache_buf s1 ! 0) = 1 \<and>
                  lookup s1 (unat (8 :: 32 word) mod NBUCKET) 1 8
                    (b_next (bucket_head s1 ! (unat (8 :: 32 word) mod NBUCKET))) = Some (Inr None)
              | _ \<Rightarrow> False)
         | Inl e \<Rightarrow> False)"
    by code_simp
  from returned [OF this] obtain s where s: "binit (boot 1 (\<lambda>_. [])) = Inr s"
    and "(case bread 0 1 7 s of
                Some (Inr (b, s1)) \<Rightarrow>
                  b = Slot 0 \<and> NBUF s1 = 1 \<and> refcnt (bcache_buf s1 ! 0) = 1 \<and>
                  lookup s1 (unat (8 :: 32 word) mod NBUCKET) 1 8
                    (b_next (bucket_head s1 ! (unat (8 :: 32 word) mod NBUCKET))) = Some (Inr None)
              | _ \<Rightarrow> False)"
    by blast
  from returned_buf [OF this(2)] obtain s1 where s1: "bread 0 1 7 s = Some (Inr (Slot 0, s1))"
    and n: "NBUF s1 = 1" and r: "refcnt (bcache_buf s1 ! 0) = 1"
    and m: "lookup s1 (unat (8 :: 32 word) mod NBUCKET) 1 8
              (b_next (bucket_head s1 ! (unat (8 :: 32 word) mod NBUCKET))) = Some (Inr None)"
    by blast
  have re: "reachable s1"
    by (rule reachable.bread [OF reachable.boot [OF s] s1])
  have "\<forall>i < NBUF s1. refcnt (bcache_buf s1 ! i) \<noteq> 0"
    using n r by simp
  from bget_saturated_never_returns [OF re m this, of 1] s s1 re n r m show ?thesis
    by blast
qed

text \<open>
  C3. \<open>bread(dev, blockno)\<close> returns the buffer that \<open>bget\<close> returns. \<open>bget\<close>
  itself calls the disk driver never. When the buffer comes back with \<open>valid = 0\<close>,
  \<open>bread\<close> calls the driver once, for a read of that block, and sets \<open>valid\<close> to 1;
  when it comes back with \<open>valid\<close> set, \<open>bread\<close> changes nothing. A hit in the
  bucket changes the state only in the \<open>refcnt\<close> of the buffer found, one more, and
  in its sleep-lock, now held by the caller. So a block that is read and released and
  then read again is served with no call of the driver.
\<close>

theorem bread_reads_disk_only_when_invalid:
  assumes "reachable s"
  shows "(\<forall>b s1. bget p d n s = Some (Inr (b, s1)) \<longrightarrow>
            (\<exists>i s'. b = Slot i \<and> i < NBUF s \<and> io s1 = io s \<and>
               bread p d n s = Some (Inr (b, s')) \<and>
               (if valid (bcache_buf s1 ! i) = 0
                then io s' = io s @ [(False, d, n)] \<and> valid (bcache_buf s' ! i) = 1
                else s' = s1)))
       \<and> (\<forall>i. lookup s (unat n mod NBUCKET) d n (b_next (bucket_head s ! (unat n mod NBUCKET)))
                 = Some (Inr (Some (Slot i))) \<and> lock (bcache_buf s ! i) = None \<longrightarrow>
            bget p d n s =
              Some (Inr (Slot i, s\<lparr>bcache_buf := (bcache_buf s)
                  [i := (bcache_buf s ! i)\<lparr>refcnt := refcnt (bcache_buf s ! i) + 1,
                                            lock := Some p\<rparr>]\<rparr>)))
       \<and> (\<forall>b s1 s2. bread p d n s = Some (Inr (b, s1)) \<and> brelse p b s1 = Inr s2 \<longrightarrow>
            (\<exists>s3. bread q d n s2 = Some (Inr (b, s3)) \<and> io s3 = io s2))"
proof -
  from reachable_inv [OF assms] obtain bs where bs: "cache_inv s bs" ..
  let ?h = "unat n mod NBUCKET"
  have h: "?h < NBUCKET" by (simp add: NBUCKET_def)
  have one: "\<exists>i s'. b = Slot i \<and> i < NBUF s \<and> io s1 = io s \<and>
               bread p d n s = Some (Inr (b, s')) \<and>
               (if valid (bcache_buf s1 ! i) = 0
                then io s' = io s @ [(False, d, n)] \<and> valid (bcache_buf s' ! i) = 1
                else s' = s1)"
    if g: "bget p d n s = Some (Inr (b, s1))" for b s1
  proof -
    from bget_first [OF bs g] obtain bs1 i where i: "cache_inv s1 bs1" "b = Slot i"
      "i < NBUF s1" "NBUF s1 = NBUF s" "io s1 = io s"
      "find (matches s1 d n) (bs1 ! ?h) = Some i" by blast
    from find_in [OF i(6)] have key: "dev (bcache_buf s1 ! i) = d" "blockno (bcache_buf s1 ! i) = n"
      by (simp_all add: matches_def)
    have ok: "ok s1 b" using i(2,3) by simp
    show ?thesis
    proof (cases "valid (bcache_buf s1 ! i) = 0")
      case True
      let ?s2 = "store b (\<lambda>y. y\<lparr>data := disk s1 (d, n)\<rparr>) (s1\<lparr>io := io s1 @ [(False, d, n)]\<rparr>)"
      let ?s' = "store b (\<lambda>y. y\<lparr>valid := 1\<rparr>) ?s2"
      have "bread p d n s = Some (Inr (b, ?s'))"
        using ok True key by (simp add: bread_def g load_ok virtio_disk_rw_eq obj_simps i(2))
      moreover have "io ?s' = io s @ [(False, d, n)]"
        by (simp add: i(5))
      moreover have "valid (bcache_buf ?s' ! i) = 1"
        using i(3) by (simp add: i(2) store_def NBUF_def)
      ultimately show ?thesis
        using True i(2,3,4,5) by auto
    next
      case False
      then have "bread p d n s = Some (Inr (b, s1))"
        using ok by (simp add: bread_def g load_ok obj_simps i(2))
      with False i(2,3,4,5) show ?thesis by auto
    qed
  qed
  have two: "bget p d n s =
              Some (Inr (Slot i, s\<lparr>bcache_buf := (bcache_buf s)
                  [i := (bcache_buf s ! i)\<lparr>refcnt := refcnt (bcache_buf s ! i) + 1,
                                            lock := Some p\<rparr>]\<rparr>))"
    if l: "lookup s ?h d n (b_next (bucket_head s ! ?h)) = Some (Inr (Some (Slot i)))"
      and f: "lock (bcache_buf s ! i) = None" for i
  proof -
    note fi = lookup_hit [OF bs l]
    from find_in [OF fi] rings_bound [OF inv_rings [OF bs] h] have "i < NBUF s" by simp
    then show ?thesis
      by (simp add: bget_hit_eq [OF bs fi] f taken_list)
  qed
  have three: "\<exists>s3. bread q d n s2 = Some (Inr (b, s3)) \<and> io s3 = io s2"
    if r: "bread p d n s = Some (Inr (b, s1))" and e: "brelse p b s1 = Inr s2" for b s1 s2
  proof -
    from bread_first [OF bs r] obtain bs1 i where i: "cache_inv s1 bs1" "b = Slot i"
      "i < NBUF s1" "find (matches s1 d n) (bs1 ! ?h) = Some i"
      "valid (bcache_buf s1 ! i) \<noteq> 0" by blast
    from brelse_eq [OF e]
    have s2: "s2 = store b (\<lambda>x. x\<lparr>lock := None, refcnt := refcnt x - 1, lu_time := int (ticks s1)\<rparr>) s1"
      by simp
    note f = brelse_frame [OF e]
    have inv2: "cache_inv s2 bs1" by (rule frame_inv [OF f i(1)])
    have fi2: "find (matches s2 d n) (bs1 ! ?h) = Some i"
      by (simp add: frame_find [OF f] i(4))
    have b2: "bcache_buf s2 ! i = (bcache_buf s1 ! i)\<lparr>lock := None,
                refcnt := refcnt (bcache_buf s1 ! i) - 1, lu_time := int (ticks s1)\<rparr>"
      using i(3) by (simp add: s2 i(2) store_def NBUF_def)
    have n2: "i < NBUF s2"
      using i(3) by (simp add: s2)
    have g: "bget q d n s2 = Some (Inr (b, taken q i s2))"
      by (simp add: bget_hit_eq [OF inv2 fi2] b2 i(2))
    have "valid (bcache_buf (taken q i s2) ! i) \<noteq> 0"
      using i(5) by (simp add: taken_buf [OF n2] b2)
    then have "bread q d n s2 = Some (Inr (b, taken q i s2))"
      using n2 by (simp add: bread_def g load_ok obj_simps i(2))
    then show ?thesis by simp
  qed
  from one two three show ?thesis by blast
qed

theorem bread_reads_disk_only_when_invalid_witness:
  "\<exists>s s1 s2 s3. binit (boot 2 (\<lambda>_. [])) = Inr s \<and> reachable s \<and>
     bread 0 1 7 s = Some (Inr (Slot 0, s1)) \<and> io s1 = [(False, 1, 7)] \<and>
     brelse 0 (Slot 0) s1 = Inr s2 \<and> io s2 = [(False, 1, 7)] \<and>
     bread 0 1 7 s2 = Some (Inr (Slot 0, s3)) \<and> io s3 = [(False, 1, 7)]"
proof -
  have "(case binit (boot 2 (\<lambda>_. [])) of
           Inr s \<Rightarrow>
             (case bread 0 1 7 s of
                Some (Inr (b, s1)) \<Rightarrow>
                  b = Slot 0 \<and> io s1 = [(False, 1, 7)] \<and>
                  (case brelse 0 (Slot 0) s1 of
                     Inr s2 \<Rightarrow> io s2 = [(False, 1, 7)]
                   | Inl e \<Rightarrow> False)
              | _ \<Rightarrow> False)
         | Inl e \<Rightarrow> False)"
    by code_simp
  from returned [OF this] obtain s where s: "binit (boot 2 (\<lambda>_. [])) = Inr s"
    and "(case bread 0 1 7 s of
                Some (Inr (b, s1)) \<Rightarrow>
                  b = Slot 0 \<and> io s1 = [(False, 1, 7)] \<and>
                  (case brelse 0 (Slot 0) s1 of
                     Inr s2 \<Rightarrow> io s2 = [(False, 1, 7)]
                   | Inl e \<Rightarrow> False)
              | _ \<Rightarrow> False)"
    by blast
  from returned_buf [OF this(2)] obtain s1 where s1: "bread 0 1 7 s = Some (Inr (Slot 0, s1))"
    and io1: "io s1 = [(False, 1, 7)]"
    and "(case brelse 0 (Slot 0) s1 of Inr s2 \<Rightarrow> io s2 = [(False, 1, 7)] | Inl e \<Rightarrow> False)"
    by blast
  from returned [OF this(3)] obtain s2 where s2: "brelse 0 (Slot 0) s1 = Inr s2"
    and io2: "io s2 = [(False, 1, 7)]"
    by blast
  have re: "reachable s" by (rule reachable.boot [OF s])
  from bread_reads_disk_only_when_invalid [OF re, of 0 1 7 0] s1 s2
  obtain s3 where "bread 0 1 7 s2 = Some (Inr (Slot 0, s3))" "io s3 = io s2"
    by blast
  with s re s1 io1 s2 io2 show ?thesis by auto
qed

text \<open>
  C4. In every state that \<open>binit\<close> and completed calls of \<open>bread\<close>, \<open>bwrite\<close>,
  \<open>brelse\<close>, \<open>bpin\<close> and \<open>bunpin\<close> lead to, whatever their arguments, no two
  buffers with valid data have the same \<open>(dev, blockno)\<close>, and when a buffer with
  valid data has \<open>(dev, blockno)\<close>, \<open>bget(dev, blockno)\<close> returns that buffer. When
  the callers pass \<open>brelse\<close>, \<open>bpin\<close> and \<open>bunpin\<close> only buffers that are
  referenced, the same holds of the buffers whose \<open>refcnt\<close> or \<open>valid\<close> is not
  zero, also in the state that \<open>bget\<close> returns: \<open>bget\<close> binds no second buffer to
  a block that a buffer holds.
\<close>

theorem cached_block_in_one_buffer:
  "(reachable s \<longrightarrow>
      (\<forall>i < NBUF s. \<forall>j < NBUF s.
         filled s i \<and> filled s j \<and>
         dev (bcache_buf s ! i) = dev (bcache_buf s ! j) \<and>
         blockno (bcache_buf s ! i) = blockno (bcache_buf s ! j) \<longrightarrow> i = j)
    \<and> (\<forall>p d n b s1 i.
         bget p d n s = Some (Inr (b, s1)) \<and> i < NBUF s \<and> filled s i \<and>
         dev (bcache_buf s ! i) = d \<and> blockno (bcache_buf s ! i) = n \<longrightarrow> b = Slot i))
 \<and> (disciplined s \<longrightarrow>
      (\<forall>i < NBUF s. \<forall>j < NBUF s.
         cached s i \<and> cached s j \<and>
         dev (bcache_buf s ! i) = dev (bcache_buf s ! j) \<and>
         blockno (bcache_buf s ! i) = blockno (bcache_buf s ! j) \<longrightarrow> i = j)
    \<and> (\<forall>p d n b s1 i.
         bget p d n s = Some (Inr (b, s1)) \<and> i < NBUF s \<and> cached s i \<and>
         dev (bcache_buf s ! i) = d \<and> blockno (bcache_buf s ! i) = n \<longrightarrow> b = Slot i)
    \<and> (\<forall>p d n b s1.
         bget p d n s = Some (Inr (b, s1)) \<longrightarrow>
         (\<forall>i < NBUF s1. \<forall>j < NBUF s1.
            cached s1 i \<and> cached s1 j \<and>
            dev (bcache_buf s1 ! i) = dev (bcache_buf s1 ! j) \<and>
            blockno (bcache_buf s1 ! i) = blockno (bcache_buf s1 ! j) \<longrightarrow> i = j)))"
proof -
  have found: "b = Slot i"
    if bs: "cache_inv s bs" and fm: "first_match s (bs ! h) i" and h: "h < NBUCKET" "i \<in> set (bs ! h)"
      and g: "bget p d n s = Some (Inr (b, s1))"
      and k: "dev (bcache_buf s ! i) = d" "blockno (bcache_buf s ! i) = n"
    for bs h p d n b s1 i
  proof -
    from inv_hash [OF bs h] k(2) have e: "h = unat n mod NBUCKET" by simp
    from fm k e have "find (matches s d n) (bs ! (unat n mod NBUCKET)) = Some i"
      by (simp add: first_match_def)
    with bget_result [OF bs g] show ?thesis by auto
  qed
  have one: "(\<forall>i < NBUF s. \<forall>j < NBUF s.
         filled s i \<and> filled s j \<and>
         dev (bcache_buf s ! i) = dev (bcache_buf s ! j) \<and>
         blockno (bcache_buf s ! i) = blockno (bcache_buf s ! j) \<longrightarrow> i = j)
    \<and> (\<forall>p d n b s1 i.
         bget p d n s = Some (Inr (b, s1)) \<and> i < NBUF s \<and> filled s i \<and>
         dev (bcache_buf s ! i) = d \<and> blockno (bcache_buf s ! i) = n \<longrightarrow> b = Slot i)"
    if "reachable s"
  proof -
    from reachable_uniqv [OF that] obtain bs where bs: "cache_inv s bs" "uniqv s bs" by blast
    have "b = Slot i"
      if g: "bget p d n s = Some (Inr (b, s1))" and i: "i < NBUF s" "filled s i"
        and k: "dev (bcache_buf s ! i) = d" "blockno (bcache_buf s ! i) = n"
      for p d n b s1 i
    proof -
      from inv_cover [OF bs(1) i(1)] obtain h where h: "h < NBUCKET" "i \<in> set (bs ! h)" by blast
      from found [OF bs(1) uniqvD [OF bs(2) h i(2)] h g k] show ?thesis .
    qed
    with uniqv_keys [OF bs] show ?thesis by blast
  qed
  have two: "(\<forall>i < NBUF s. \<forall>j < NBUF s.
         cached s i \<and> cached s j \<and>
         dev (bcache_buf s ! i) = dev (bcache_buf s ! j) \<and>
         blockno (bcache_buf s ! i) = blockno (bcache_buf s ! j) \<longrightarrow> i = j)
    \<and> (\<forall>p d n b s1 i.
         bget p d n s = Some (Inr (b, s1)) \<and> i < NBUF s \<and> cached s i \<and>
         dev (bcache_buf s ! i) = d \<and> blockno (bcache_buf s ! i) = n \<longrightarrow> b = Slot i)
    \<and> (\<forall>p d n b s1.
         bget p d n s = Some (Inr (b, s1)) \<longrightarrow>
         (\<forall>i < NBUF s1. \<forall>j < NBUF s1.
            cached s1 i \<and> cached s1 j \<and>
            dev (bcache_buf s1 ! i) = dev (bcache_buf s1 ! j) \<and>
            blockno (bcache_buf s1 ! i) = blockno (bcache_buf s1 ! j) \<longrightarrow> i = j))"
    if "disciplined s"
  proof -
    from disciplined_inv [OF that] obtain bs where bs: "cache_inv s bs" "uniq s bs" by blast
    have "b = Slot i"
      if g: "bget p d n s = Some (Inr (b, s1))" and i: "i < NBUF s" "cached s i"
        and k: "dev (bcache_buf s ! i) = d" "blockno (bcache_buf s ! i) = n"
      for p d n b s1 i
    proof -
      from inv_cover [OF bs(1) i(1)] obtain h where h: "h < NBUCKET" "i \<in> set (bs ! h)" by blast
      from found [OF bs(1) uniqD [OF bs(2) h i(2)] h g k] show ?thesis .
    qed
    moreover have "\<forall>i < NBUF s1. \<forall>j < NBUF s1.
            cached s1 i \<and> cached s1 j \<and>
            dev (bcache_buf s1 ! i) = dev (bcache_buf s1 ! j) \<and>
            blockno (bcache_buf s1 ! i) = blockno (bcache_buf s1 ! j) \<longrightarrow> i = j"
      if g: "bget p d n s = Some (Inr (b, s1))" for p d n b s1
    proof -
      from bget_uniq [OF bs g] obtain bs1 where "cache_inv s1 bs1" "uniq s1 bs1" by blast
      from uniq_keys [OF this] show ?thesis by blast
    qed
    ultimately show ?thesis
      using uniq_keys [OF bs] by blast
  qed
  from one two show ?thesis by blast
qed

theorem cached_block_in_one_buffer_witness:
  "\<exists>s s1 s2 s3. binit (boot 2 (\<lambda>_. [])) = Inr s \<and> bread 0 1 7 s = Some (Inr (Slot 0, s1)) \<and>
     brelse 0 (Slot 0) s1 = Inr s2 \<and> reachable s2 \<and> disciplined s2 \<and> NBUF s2 = 2 \<and>
     filled s2 0 \<and> cached s2 0 \<and>
     dev (bcache_buf s2 ! 0) = 1 \<and> blockno (bcache_buf s2 ! 0) = 7 \<and>
     bget 1 1 7 s2 = Some (Inr (Slot 0, s3))"
proof -
  have "(case binit (boot 2 (\<lambda>_. [])) of
           Inr s \<Rightarrow>
             (case bread 0 1 7 s of
                Some (Inr (b, s1)) \<Rightarrow>
                  b = Slot 0 \<and> NBUF s1 = 2 \<and> refcnt (bcache_buf s1 ! 0) = 1 \<and>
                  (case brelse 0 (Slot 0) s1 of
                     Inr s2 \<Rightarrow>
                       NBUF s2 = 2 \<and> valid (bcache_buf s2 ! 0) = 1 \<and>
                       dev (bcache_buf s2 ! 0) = 1 \<and> blockno (bcache_buf s2 ! 0) = 7 \<and>
                       (case bget 1 1 7 s2 of Some (Inr (c, s3)) \<Rightarrow> True | _ \<Rightarrow> False)
                   | Inl e \<Rightarrow> False)
              | _ \<Rightarrow> False)
         | Inl e \<Rightarrow> False)"
    by code_simp
  from returned [OF this] obtain s where s: "binit (boot 2 (\<lambda>_. [])) = Inr s"
    and "(case bread 0 1 7 s of
                Some (Inr (b, s1)) \<Rightarrow>
                  b = Slot 0 \<and> NBUF s1 = 2 \<and> refcnt (bcache_buf s1 ! 0) = 1 \<and>
                  (case brelse 0 (Slot 0) s1 of
                     Inr s2 \<Rightarrow>
                       NBUF s2 = 2 \<and> valid (bcache_buf s2 ! 0) = 1 \<and>
                       dev (bcache_buf s2 ! 0) = 1 \<and> blockno (bcache_buf s2 ! 0) = 7 \<and>
                       (case bget 1 1 7 s2 of Some (Inr (c, s3)) \<Rightarrow> True | _ \<Rightarrow> False)
                   | Inl e \<Rightarrow> False)
              | _ \<Rightarrow> False)"
    by blast
  from returned_buf [OF this(2)] obtain s1 where s1: "bread 0 1 7 s = Some (Inr (Slot 0, s1))"
    and n1: "NBUF s1 = 2" and r1: "refcnt (bcache_buf s1 ! 0) = 1"
    and "(case brelse 0 (Slot 0) s1 of
                     Inr s2 \<Rightarrow>
                       NBUF s2 = 2 \<and> valid (bcache_buf s2 ! 0) = 1 \<and>
                       dev (bcache_buf s2 ! 0) = 1 \<and> blockno (bcache_buf s2 ! 0) = 7 \<and>
                       (case bget 1 1 7 s2 of Some (Inr (c, s3)) \<Rightarrow> True | _ \<Rightarrow> False)
                   | Inl e \<Rightarrow> False)"
    by blast
  from returned [OF this(4)] obtain s2 where s2: "brelse 0 (Slot 0) s1 = Inr s2"
    and n2: "NBUF s2 = 2" and k: "valid (bcache_buf s2 ! 0) = 1"
      "dev (bcache_buf s2 ! 0) = 1" "blockno (bcache_buf s2 ! 0) = 7"
    and "(case bget 1 1 7 s2 of Some (Inr (c, s3)) \<Rightarrow> True | _ \<Rightarrow> False)"
    by blast
  from returned_buf [OF this(6)] obtain c s3 where g: "bget 1 1 7 s2 = Some (Inr (c, s3))"
    by blast
  have d1: "disciplined s1"
    by (rule disciplined.bread [OF disciplined.boot [OF s] s1])
  have "deref s1 (Slot 0) = Some (bcache_buf s1 ! 0)"
    using n1 by (simp add: deref_def NBUF_def)
  from disciplined.brelse [OF d1 this _ s2] r1 have d2: "disciplined s2" by simp
  have c: "cached s2 0" using k(1) by (simp add: cached_def)
  have f: "filled s2 0" using k(1) by (simp add: filled_def)
  have re: "reachable s2" by (rule disciplined_reachable [OF d2])
  have "bget 1 1 7 s2 = Some (Inr (c, s3)) \<and> 0 < NBUF s2 \<and> filled s2 0 \<and>
        dev (bcache_buf s2 ! 0) = 1 \<and> blockno (bcache_buf s2 ! 0) = 7"
    using g n2 f k(2,3) by simp
  from cached_block_in_one_buffer [THEN conjunct1, rule_format, OF re, THEN conjunct2,
      rule_format, OF this]
  have "c = Slot 0" .
  with s s1 s2 re d2 n2 f c k(2,3) g show ?thesis by blast
qed

text \<open>
  C5. After \<open>binit\<close> and after every completed operation, the list of every bucket is
  a doubly-linked ring of buffers of the pool, and every buffer of the pool is on the
  list of one bucket only, the bucket \<open>blockno mod NBUCKET\<close>: whatever its \<open>refcnt\<close>
  and \<open>valid\<close> are.
\<close>

theorem buffers_in_their_hash_bucket:
  assumes "reachable s"
  shows "length (bucket_head s) = NBUCKET
       \<and> (\<forall>h < NBUCKET. linked s h)
       \<and> (\<forall>i < NBUF s. \<forall>h < NBUCKET.
            in_bucket s h i \<longleftrightarrow> h = unat (blockno (bcache_buf s ! i)) mod NBUCKET)"
proof -
  from reachable_inv [OF assms] obtain bs where bs: "cache_inv s bs" ..
  note r = inv_rings [OF bs]
  have m: "members s h = Some (bs ! h)" if "h < NBUCKET" for h
    by (rule members_rings [OF r that])
  have "linked s h" if "h < NBUCKET" for h
    using rings_ring [OF r that] rings_distinct [OF r that] by (simp add: linked_def m [OF that])
  moreover have "in_bucket s h i \<longleftrightarrow> h = unat (blockno (bcache_buf s ! i)) mod NBUCKET"
    if i: "i < NBUF s" and h: "h < NBUCKET" for i h
  proof
    assume "in_bucket s h i"
    then have "i \<in> set (bs ! h)" by (simp add: in_bucket_def m [OF h])
    from inv_hash [OF bs h this] show "h = unat (blockno (bcache_buf s ! i)) mod NBUCKET"
      by simp
  next
    assume e: "h = unat (blockno (bcache_buf s ! i)) mod NBUCKET"
    from inv_cover [OF bs i] obtain k where k: "k < NBUCKET" "i \<in> set (bs ! k)" by blast
    from inv_hash [OF bs k] e have "k = h" by simp
    with k show "in_bucket s h i" by (simp add: in_bucket_def m [OF h])
  qed
  ultimately show ?thesis
    using rings_len [OF r] by blast
qed

theorem buffers_in_their_hash_bucket_witness:
  "\<exists>s s1. binit (boot 2 (\<lambda>_. [])) = Inr s \<and> bread 0 1 7 s = Some (Inr (Slot 0, s1)) \<and>
     reachable s1 \<and> linked s1 7 \<and> in_bucket s1 7 0 \<and> in_bucket s1 0 1 \<and> \<not> in_bucket s1 0 0"
proof -
  have "(case binit (boot 2 (\<lambda>_. [])) of
           Inr s \<Rightarrow>
             (case bread 0 1 7 s of
                Some (Inr (b, s1)) \<Rightarrow>
                  b = Slot 0 \<and> NBUF s1 = 2 \<and> blockno (bcache_buf s1 ! 0) = 7 \<and>
                  blockno (bcache_buf s1 ! 1) = 0
              | _ \<Rightarrow> False)
         | Inl e \<Rightarrow> False)"
    by code_simp
  from returned [OF this] obtain s where s: "binit (boot 2 (\<lambda>_. [])) = Inr s"
    and "(case bread 0 1 7 s of
                Some (Inr (b, s1)) \<Rightarrow>
                  b = Slot 0 \<and> NBUF s1 = 2 \<and> blockno (bcache_buf s1 ! 0) = 7 \<and>
                  blockno (bcache_buf s1 ! 1) = 0
              | _ \<Rightarrow> False)"
    by blast
  from returned_buf [OF this(2)] obtain s1 where s1: "bread 0 1 7 s = Some (Inr (Slot 0, s1))"
    and n: "NBUF s1 = 2" and b: "blockno (bcache_buf s1 ! 0) = 7" "blockno (bcache_buf s1 ! 1) = 0"
    by blast
  have re: "reachable s1"
    by (rule reachable.bread [OF reachable.boot [OF s] s1])
  from buffers_in_their_hash_bucket [OF re] n b
  have "linked s1 7" "in_bucket s1 7 0" "in_bucket s1 0 1" "\<not> in_bucket s1 0 0"
    by (simp_all add: NBUCKET_def)
  with s s1 re show ?thesis by blast
qed

text \<open>
  C8. \<open>brelse(b)\<close> by the holder of the sleep-lock of \<open>b\<close> releases the sleep-lock,
  takes one from \<open>refcnt\<close> and sets \<open>lu_time\<close> to \<open>ticks\<close>. Nothing else changes:
  not the other fields of \<open>b\<close> (\<open>dev\<close>, \<open>blockno\<close>, \<open>valid\<close>, \<open>data\<close>, the list
  pointers), not any other buffer, not the bucket heads, so that every bucket has the
  members it had. A caller that does not hold the sleep-lock gets the panic
  "brelse".
\<close>

theorem brelse_changes_only_its_buffer:
  assumes "i < NBUF s"
  shows "(lock (bcache_buf s ! i) = Some p \<longrightarrow>
           (\<exists>s'. brelse p (Slot i) s = Inr s' \<and>
              bcache_buf s' = (bcache_buf s)
                [i := (bcache_buf s ! i)\<lparr>lock := None,
                        refcnt := refcnt (bcache_buf s ! i) - 1, lu_time := int (ticks s)\<rparr>] \<and>
              (refcnt (bcache_buf s ! i) \<noteq> 0 \<longrightarrow>
                 unat (refcnt (bcache_buf s' ! i)) + 1 = unat (refcnt (bcache_buf s ! i))) \<and>
              bucket_head s' = bucket_head s \<and> ticks s' = ticks s \<and>
              disk s' = disk s \<and> io s' = io s \<and>
              (\<forall>h. members s' h = members s h)))
       \<and> (lock (bcache_buf s ! i) \<noteq> Some p \<longrightarrow> brelse p (Slot i) s = Inl (Panic ''brelse''))"
proof -
  let ?x = "bcache_buf s ! i"
  let ?f = "\<lambda>x. x\<lparr>lock := None, refcnt := refcnt x - 1, lu_time := int (ticks s)\<rparr>"
  let ?s' = "store (Slot i) ?f s"
  have ok: "ok s (Slot i)" using assms by simp
  have l: "load s (Slot i) = Inr ?x"
    using assms by (simp add: load_ok [OF ok] obj_simps)
  have bad: "brelse p (Slot i) s = Inl (Panic ''brelse'')" if "lock ?x \<noteq> Some p"
    using that by (simp add: brelse_def l holdingsleep_def)
  have good: "\<exists>s'. brelse p (Slot i) s = Inr s' \<and>
              bcache_buf s' = (bcache_buf s)
                [i := ?x\<lparr>lock := None, refcnt := refcnt ?x - 1, lu_time := int (ticks s)\<rparr>] \<and>
              (refcnt ?x \<noteq> 0 \<longrightarrow> unat (refcnt (bcache_buf s' ! i)) + 1 = unat (refcnt ?x)) \<and>
              bucket_head s' = bucket_head s \<and> ticks s' = ticks s \<and>
              disk s' = disk s \<and> io s' = io s \<and>
              (\<forall>h. members s' h = members s h)"
    if h: "lock ?x = Some p"
  proof -
    have "\<exists>s'. brelse p (Slot i) s = Inr s'"
      using h by (simp add: brelse_def l holdingsleep_def Let_def)
    then obtain s' where r: "brelse p (Slot i) s = Inr s'" ..
    from brelse_eq [OF r] have e: "s' = ?s'" by simp
    have b: "bcache_buf s' = (bcache_buf s)[i := ?f ?x]"
      by (simp add: e store_list [OF assms])
    have n: "NBUF s' = NBUF s" by (simp add: e)
    have hd: "bucket_head s' = bucket_head s" by (simp add: e store_def)
    have nx: "b_next (bcache_buf s' ! k) = b_next (bcache_buf s ! k)" if "k < NBUF s" for k
      using that by (cases "k = i") (simp_all add: b NBUF_def)
    have m: "members s' h = members s h" for h
      by (simp add: members_def n hd chain_agree [OF n nx])
    have u: "unat (refcnt (bcache_buf s' ! i)) + 1 = unat (refcnt ?x)" if "refcnt ?x \<noteq> 0"
    proof -
      have "refcnt (bcache_buf s' ! i) = refcnt ?x - 1"
        using assms by (simp add: b NBUF_def)
      moreover from that have "unat (refcnt ?x) \<noteq> 0" by (simp add: unat_eq_0)
      ultimately show ?thesis by (simp add: unat_minus_one that)
    qed
    from r b u hd m show ?thesis
      by (simp add: e store_def)
  qed
  from good bad show ?thesis by blast
qed

theorem brelse_changes_only_its_buffer_witness:
  "\<exists>s s1 s2. binit (boot 2 (\<lambda>_. [])) = Inr s \<and> bread 0 1 7 s = Some (Inr (Slot 0, s1)) \<and>
     NBUF s1 = 2 \<and> lock (bcache_buf s1 ! 0) = Some 0 \<and> refcnt (bcache_buf s1 ! 0) = 1 \<and>
     brelse 0 (Slot 0) s1 = Inr s2 \<and> refcnt (bcache_buf s2 ! 0) = 0 \<and>
     lock (bcache_buf s2 ! 0) = None \<and> members s2 7 = members s1 7 \<and>
     brelse 1 (Slot 0) s1 = Inl (Panic ''brelse'')"
proof -
  have "(case binit (boot 2 (\<lambda>_. [])) of
           Inr s \<Rightarrow>
             (case bread 0 1 7 s of
                Some (Inr (b, s1)) \<Rightarrow>
                  b = Slot 0 \<and> NBUF s1 = 2 \<and> lock (bcache_buf s1 ! 0) = Some 0 \<and>
                  refcnt (bcache_buf s1 ! 0) = 1
              | _ \<Rightarrow> False)
         | Inl e \<Rightarrow> False)"
    by code_simp
  from returned [OF this] obtain s where s: "binit (boot 2 (\<lambda>_. [])) = Inr s"
    and "(case bread 0 1 7 s of
                Some (Inr (b, s1)) \<Rightarrow>
                  b = Slot 0 \<and> NBUF s1 = 2 \<and> lock (bcache_buf s1 ! 0) = Some 0 \<and>
                  refcnt (bcache_buf s1 ! 0) = 1
              | _ \<Rightarrow> False)"
    by blast
  from returned_buf [OF this(2)] obtain s1 where s1: "bread 0 1 7 s = Some (Inr (Slot 0, s1))"
    and n: "NBUF s1 = 2" and l: "lock (bcache_buf s1 ! 0) = Some 0"
    and r: "refcnt (bcache_buf s1 ! 0) = 1"
    by blast
  have i: "0 < NBUF s1" using n by simp
  from brelse_changes_only_its_buffer [OF i, of 0] l
  obtain s2 where s2: "brelse 0 (Slot 0) s1 = Inr s2"
    and b: "bcache_buf s2 = (bcache_buf s1)
                [0 := (bcache_buf s1 ! 0)\<lparr>lock := None,
                        refcnt := refcnt (bcache_buf s1 ! 0) - 1, lu_time := int (ticks s1)\<rparr>]"
    and m: "\<forall>h. members s2 h = members s1 h"
    by blast
  have "refcnt (bcache_buf s2 ! 0) = 0" "lock (bcache_buf s2 ! 0) = None"
    using n r by (simp_all add: b NBUF_def)
  moreover from brelse_changes_only_its_buffer [OF i, of 1] l
  have "brelse 1 (Slot 0) s1 = Inl (Panic ''brelse'')" by simp
  ultimately show ?thesis
    using s s1 n l r s2 m by blast
qed

text \<open>
  C9. \<open>binit\<close> leaves every buffer with \<open>lu_time = -1\<close>, and \<open>brelse\<close> is the only
  operation that writes \<open>lu_time\<close> afterwards: it stores \<open>ticks\<close>, which is not
  negative. So in a state that \<open>binit\<close> and completed operations lead to, whenever
  some buffer with \<open>refcnt = 0\<close> still has \<open>lu_time = -1\<close>, the scan of the pool
  selects a buffer with \<open>refcnt = 0\<close> and \<open>lu_time = -1\<close>, and never one that was
  released at a tick \<open>\<ge> 0\<close>.
\<close>

theorem fresh_buffers_evicted_first:
  "(\<exists>s. binit (boot nbuf dsk) = Inr s \<and> NBUF s = nbuf \<and>
        (\<forall>i < nbuf. lu_time (bcache_buf s ! i) = - 1))
 \<and> (\<forall>s p i s'. i < NBUF s \<and> brelse p (Slot i) s = Inr s' \<longrightarrow>
        lu_time (bcache_buf s' ! i) = int (ticks s) \<and> 0 \<le> lu_time (bcache_buf s' ! i))
 \<and> (\<forall>s j. reachable s \<and> j < NBUF s \<and> refcnt (bcache_buf s ! j) = 0 \<and>
        lu_time (bcache_buf s ! j) = - 1 \<longrightarrow>
        (\<exists>l. scan s = Some l \<and> l < NBUF s \<and> refcnt (bcache_buf s ! l) = 0 \<and>
             lu_time (bcache_buf s ! l) = - 1 \<and>
             (\<forall>k < NBUF s. 0 \<le> lu_time (bcache_buf s ! k) \<longrightarrow> l \<noteq> k)))"
proof -
  from boot_total obtain s where s: "binit (boot nbuf dsk) = Inr s" ..
  from boot_inv(2) [OF s] boot_facts(4) [OF s]
  have one: "\<exists>s. binit (boot nbuf dsk) = Inr s \<and> NBUF s = nbuf \<and>
        (\<forall>i < nbuf. lu_time (bcache_buf s ! i) = - 1)"
    using s by blast
  have two: "lu_time (bcache_buf s' ! i) = int (ticks s) \<and> 0 \<le> lu_time (bcache_buf s' ! i)"
    if "i < NBUF s" "brelse p (Slot i) s = Inr s'" for s p i s'
    using brelse_eq [OF that(2)] that(1) by (simp add: buf_store)
  have three: "\<exists>l. scan s = Some l \<and> l < NBUF s \<and> refcnt (bcache_buf s ! l) = 0 \<and>
             lu_time (bcache_buf s ! l) = - 1 \<and>
             (\<forall>k < NBUF s. 0 \<le> lu_time (bcache_buf s ! k) \<longrightarrow> l \<noteq> k)"
    if r: "reachable s" and j: "j < NBUF s" "refcnt (bcache_buf s ! j) = 0"
      "lu_time (bcache_buf s ! j) = - 1" for s j
  proof -
    from scan_finds [OF j(1,2)] obtain l where l: "scan s = Some l" ..
    note v = scan_Some [OF l]
    from v(3) [OF j(1,2)] j(3) have "lu_time (bcache_buf s ! l) \<le> - 1" by simp
    moreover from reachable_stamped [OF r] v(1) have "- 1 \<le> lu_time (bcache_buf s ! l)"
      by (simp add: stamped_def)
    ultimately have "lu_time (bcache_buf s ! l) = - 1" by simp
    with l v(1,2) show ?thesis by auto
  qed
  from one two three show ?thesis by blast
qed

theorem fresh_buffers_evicted_first_witness:
  "\<exists>s s1 s2. binit (boot 2 (\<lambda>_. [])) = Inr s \<and> bread 0 1 7 s = Some (Inr (Slot 0, s1)) \<and>
     brelse 0 (Slot 0) s1 = Inr s2 \<and> reachable s2 \<and> NBUF s2 = 2 \<and>
     refcnt (bcache_buf s2 ! 0) = 0 \<and> lu_time (bcache_buf s2 ! 0) = 0 \<and>
     refcnt (bcache_buf s2 ! 1) = 0 \<and> lu_time (bcache_buf s2 ! 1) = - 1 \<and>
     scan s2 = Some 1"
proof -
  have "(case binit (boot 2 (\<lambda>_. [])) of
           Inr s \<Rightarrow>
             (case bread 0 1 7 s of
                Some (Inr (b, s1)) \<Rightarrow>
                  b = Slot 0 \<and>
                  (case brelse 0 (Slot 0) s1 of
                     Inr s2 \<Rightarrow>
                       NBUF s2 = 2 \<and>
                       refcnt (bcache_buf s2 ! 0) = 0 \<and> lu_time (bcache_buf s2 ! 0) = 0 \<and>
                       refcnt (bcache_buf s2 ! 1) = 0 \<and> lu_time (bcache_buf s2 ! 1) = - 1
                   | Inl e \<Rightarrow> False)
              | _ \<Rightarrow> False)
         | Inl e \<Rightarrow> False)"
    by code_simp
  from returned [OF this] obtain s where s: "binit (boot 2 (\<lambda>_. [])) = Inr s"
    and "(case bread 0 1 7 s of
                Some (Inr (b, s1)) \<Rightarrow>
                  b = Slot 0 \<and>
                  (case brelse 0 (Slot 0) s1 of
                     Inr s2 \<Rightarrow>
                       NBUF s2 = 2 \<and>
                       refcnt (bcache_buf s2 ! 0) = 0 \<and> lu_time (bcache_buf s2 ! 0) = 0 \<and>
                       refcnt (bcache_buf s2 ! 1) = 0 \<and> lu_time (bcache_buf s2 ! 1) = - 1
                   | Inl e \<Rightarrow> False)
              | _ \<Rightarrow> False)"
    by blast
  from returned_buf [OF this(2)] obtain s1 where s1: "bread 0 1 7 s = Some (Inr (Slot 0, s1))"
    and "(case brelse 0 (Slot 0) s1 of
                     Inr s2 \<Rightarrow>
                       NBUF s2 = 2 \<and>
                       refcnt (bcache_buf s2 ! 0) = 0 \<and> lu_time (bcache_buf s2 ! 0) = 0 \<and>
                       refcnt (bcache_buf s2 ! 1) = 0 \<and> lu_time (bcache_buf s2 ! 1) = - 1
                   | Inl e \<Rightarrow> False)"
    by blast
  from returned [OF this(2)] obtain s2 where s2: "brelse 0 (Slot 0) s1 = Inr s2"
    and n: "NBUF s2 = 2"
    and b0: "refcnt (bcache_buf s2 ! 0) = 0" "lu_time (bcache_buf s2 ! 0) = 0"
    and b1: "refcnt (bcache_buf s2 ! 1) = 0" "lu_time (bcache_buf s2 ! 1) = - 1"
    by blast
  have re: "reachable s2"
    by (rule reachable.brelse [OF reachable.bread [OF reachable.boot [OF s] s1] s2])
  have "reachable s2 \<and> 1 < NBUF s2 \<and> refcnt (bcache_buf s2 ! 1) = 0 \<and>
        lu_time (bcache_buf s2 ! 1) = - 1"
    using re n b1 by simp
  from fresh_buffers_evicted_first
    [of 2 "\<lambda>_. []", THEN conjunct2, THEN conjunct2, rule_format, OF this]
  obtain l where l: "scan s2 = Some l" "l < NBUF s2"
    "\<forall>k < NBUF s2. 0 \<le> lu_time (bcache_buf s2 ! k) \<longrightarrow> l \<noteq> k"
    by blast
  from l(3) [rule_format, of 0] n b0 have "l \<noteq> 0" by simp
  with l(2) n have "l = 1" by simp
  with s s1 s2 re n b0 b1 l(1) show ?thesis by blast
qed

text \<open>
  C10. \<open>bunpin(b)\<close> takes one from \<open>refcnt\<close> with no check and never panics. On a
  buffer whose \<open>refcnt\<close> is 0 the count wraps: it reads \<open>-1\<close> as a signed number and
  \<open>4294967295\<close> as an unsigned one, and the scan of the pool does not select the
  buffer. A buffer is not selected as long as its \<open>refcnt\<close> is not 0.
\<close>

theorem bunpin_decrements_unchecked:
  assumes "i < NBUF s"
  shows "bunpin (Slot i) s =
           Inr (s\<lparr>bcache_buf := (bcache_buf s)
                  [i := (bcache_buf s ! i)\<lparr>refcnt := refcnt (bcache_buf s ! i) - 1\<rparr>]\<rparr>)
       \<and> (refcnt (bcache_buf s ! i) = 0 \<longrightarrow>
            (\<exists>s'. bunpin (Slot i) s = Inr s' \<and> sint (refcnt (bcache_buf s' ! i)) = - 1 \<and>
                  unat (refcnt (bcache_buf s' ! i)) = 4294967295 \<and> scan s' \<noteq> Some i))
       \<and> (refcnt (bcache_buf s ! i) \<noteq> 0 \<longrightarrow> scan s \<noteq> Some i)
       \<and> (\<forall>b t msg. bunpin b t \<noteq> Inl (Panic msg))"
proof -
  let ?s' = "s\<lparr>bcache_buf := (bcache_buf s)
                  [i := (bcache_buf s ! i)\<lparr>refcnt := refcnt (bcache_buf s ! i) - 1\<rparr>]\<rparr>"
  have e: "bunpin (Slot i) s = Inr ?s'"
    using assms by (simp add: bunpin_def assign_ok store_list)
  have w: "\<exists>s'. bunpin (Slot i) s = Inr s' \<and> sint (refcnt (bcache_buf s' ! i)) = - 1 \<and>
                  unat (refcnt (bcache_buf s' ! i)) = 4294967295 \<and> scan s' \<noteq> Some i"
    if z: "refcnt (bcache_buf s ! i) = 0"
  proof -
    have r: "refcnt (bcache_buf ?s' ! i) = - 1"
      using assms z by (simp add: NBUF_def)
    then have "scan ?s' \<noteq> Some i"
      using scan_Some(2) [of ?s' i] by auto
    moreover have "unat (- 1 :: 32 word) = 4294967295"
      by (simp add: unsigned_minus_1_eq_mask mask_eq_exp_minus_1)
    ultimately show ?thesis using e r by simp
  qed
  have k: "scan s \<noteq> Some i" if "refcnt (bcache_buf s ! i) \<noteq> 0"
    using scan_Some(2) [of s i] that by auto
  have "bunpin b t \<noteq> Inl (Panic msg)" for b t msg
    by (cases "ok t b") (simp_all add: bunpin_def assign_ok assign_not_ok)
  with e w k show ?thesis by blast
qed

theorem bunpin_decrements_unchecked_witness:
  "\<exists>s s1 s2 s3. binit (boot 2 (\<lambda>_. [])) = Inr s \<and>
     bread 0 1 7 s = Some (Inr (Slot 0, s1)) \<and> brelse 0 (Slot 0) s1 = Inr s2 \<and>
     NBUF s2 = 2 \<and> refcnt (bcache_buf s2 ! 0) = 0 \<and> valid (bcache_buf s2 ! 0) = 1 \<and>
     bunpin (Slot 0) s2 = Inr s3 \<and> sint (refcnt (bcache_buf s3 ! 0)) = - 1 \<and>
     unat (refcnt (bcache_buf s3 ! 0)) = 4294967295 \<and> scan s3 \<noteq> Some 0"
proof -
  have "(case binit (boot 2 (\<lambda>_. [])) of
           Inr s \<Rightarrow>
             (case bread 0 1 7 s of
                Some (Inr (b, s1)) \<Rightarrow>
                  b = Slot 0 \<and>
                  (case brelse 0 (Slot 0) s1 of
                     Inr s2 \<Rightarrow>
                       NBUF s2 = 2 \<and> refcnt (bcache_buf s2 ! 0) = 0 \<and>
                       valid (bcache_buf s2 ! 0) = 1
                   | Inl e \<Rightarrow> False)
              | _ \<Rightarrow> False)
         | Inl e \<Rightarrow> False)"
    by code_simp
  from returned [OF this] obtain s where s: "binit (boot 2 (\<lambda>_. [])) = Inr s"
    and "(case bread 0 1 7 s of
                Some (Inr (b, s1)) \<Rightarrow>
                  b = Slot 0 \<and>
                  (case brelse 0 (Slot 0) s1 of
                     Inr s2 \<Rightarrow>
                       NBUF s2 = 2 \<and> refcnt (bcache_buf s2 ! 0) = 0 \<and>
                       valid (bcache_buf s2 ! 0) = 1
                   | Inl e \<Rightarrow> False)
              | _ \<Rightarrow> False)"
    by blast
  from returned_buf [OF this(2)] obtain s1 where s1: "bread 0 1 7 s = Some (Inr (Slot 0, s1))"
    and "(case brelse 0 (Slot 0) s1 of
                     Inr s2 \<Rightarrow>
                       NBUF s2 = 2 \<and> refcnt (bcache_buf s2 ! 0) = 0 \<and>
                       valid (bcache_buf s2 ! 0) = 1
                   | Inl e \<Rightarrow> False)"
    by blast
  from returned [OF this(2)] obtain s2 where s2: "brelse 0 (Slot 0) s1 = Inr s2"
    and n: "NBUF s2 = 2" and z: "refcnt (bcache_buf s2 ! 0) = 0"
    and v: "valid (bcache_buf s2 ! 0) = 1"
    by blast
  have "0 < NBUF s2" using n by simp
  from bunpin_decrements_unchecked [OF this] z
  obtain s3 where "bunpin (Slot 0) s2 = Inr s3" "sint (refcnt (bcache_buf s3 ! 0)) = - 1"
    "unat (refcnt (bcache_buf s3 ! 0)) = 4294967295" "scan s3 \<noteq> Some 0" by blast
  with s s1 s2 n z v show ?thesis by blast
qed

text \<open>
  A buffer that a \<open>bunpin\<close> too many has left at \<open>refcnt = -1\<close> does not stay out
  of the scan for good. One buffer in the pool: process 0 reads block 7 of device 1
  and releases it, and \<open>bunpin\<close> is called once more on the buffer. The scan now
  finds no candidate. Then process 1 reads the same block: the hit takes \<open>refcnt\<close>
  to 0 again, and the scan selects the buffer, while process 1 holds its sleep-lock.
\<close>

theorem bunpin_misuse_not_permanent:
  "case binit (boot 1 (\<lambda>_. [])) of
     Inr s \<Rightarrow>
       (case bread 0 1 7 s of
          Some (Inr (b, s1)) \<Rightarrow>
            (case brelse 0 b s1 of
               Inr s2 \<Rightarrow>
                 refcnt (bcache_buf s2 ! 0) = 0 \<and>
                 (case bunpin b s2 of
                    Inr s3 \<Rightarrow>
                      refcnt (bcache_buf s3 ! 0) = - 1 \<and> scan s3 = None \<and>
                      (case bread 1 1 7 s3 of
                         Some (Inr (c, s4)) \<Rightarrow>
                           c = b \<and> b = Slot 0 \<and> lock (bcache_buf s4 ! 0) = Some 1 \<and>
                           refcnt (bcache_buf s4 ! 0) = 0 \<and> scan s4 = Some 0
                       | _ \<Rightarrow> False)
                  | Inl e \<Rightarrow> False)
             | Inl e \<Rightarrow> False)
        | _ \<Rightarrow> False)
   | Inl e \<Rightarrow> False"
  by code_simp

end
